theory Spec2Isabelle
  imports Main "HOL-Library.Sublist"
begin

section \<open>Text: Python strings as lists of code points\<close>

text \<open>
  A Python \<open>str\<close> is a sequence of Unicode code points. Several characters the program
  names (the accented capitals of the speaker class, the musical symbols) lie beyond one
  byte, so a character is its code point, a natural number, and a string is a list of them.
  \<open>cps\<close> turns an ASCII literal into such a list.
\<close>

type_synonym uchar = nat
type_synonym ustr = "nat list"

definition cps :: "string \<Rightarrow> ustr" where
  "cps s = map of_char s"

text \<open>
  Whitespace, as \<open>str.strip()\<close> and the regex class \<open>\s\<close> on \<open>str\<close> patterns see it
  (both test \<open>Py_UNICODE_ISSPACE\<close>): U+0009..U+000D, U+001C..U+0020, U+0085, U+00A0,
  U+1680, U+2000..U+200A, U+2028, U+2029, U+202F, U+205F, U+3000.
\<close>

definition is_space :: "uchar \<Rightarrow> bool" where
  "is_space c \<longleftrightarrow>
     (9 \<le> c \<and> c \<le> 13) \<or> (28 \<le> c \<and> c \<le> 32) \<or> c = 133 \<or> c = 160 \<or> c = 5760 \<or>
     (8192 \<le> c \<and> c \<le> 8202) \<or> c = 8232 \<or> c = 8233 \<or> c = 8239 \<or> c = 8287 \<or> c = 12288"

definition strip :: "ustr \<Rightarrow> ustr" where
  "strip s = rev (dropWhile is_space (rev (dropWhile is_space s)))"

text \<open>\<open>line.rstrip("\n")\<close>: every trailing line feed (U+000A) goes.\<close>

definition rstrip_nl :: "ustr \<Rightarrow> ustr" where
  "rstrip_nl s = rev (dropWhile (\<lambda>c. c = 10) (rev s))"

text \<open>\<open>str(n)\<close> for a non-negative integer: its decimal digits, most significant first.\<close>

fun str_nat :: "nat \<Rightarrow> ustr" where
  "str_nat n = (if n < 10 then [48 + n] else str_nat (n div 10) @ [48 + n mod 10])"

declare str_nat.simps [simp del]

section \<open>Regular expressions of the program\<close>

text \<open>
  Each pattern is a matcher on the text that starts at the current position: it returns
  the length of the match there, or \<open>None\<close>. None of the patterns substituted by the
  program matches the empty string, so \<open>re.sub\<close> is the left-to-right scan below: at a
  match the replacement is emitted and the scan resumes behind the match, otherwise the
  character is copied.
\<close>

type_synonym matcher = "ustr \<Rightarrow> nat option"

text \<open>\<open>o[^c]*c\<close> and \<open>o[^c]+c\<close>: an opening character, a run without the closing
  character (at least \<open>least\<close> long), the closing character. The negated class also takes
  line feeds, and the run must stop at the first closing character, so no backtracking
  changes the match.\<close>

definition delim_match :: "uchar \<Rightarrow> uchar \<Rightarrow> nat \<Rightarrow> matcher" where
  "delim_match opn cls least s =
     (case s of
        [] \<Rightarrow> None
      | c # t \<Rightarrow>
          let body = takeWhile (\<lambda>x. x \<noteq> cls) t
          in if c = opn \<and> least \<le> length body \<and> length body < length t
             then Some (length body + 2) else None)"

text \<open>\<open>BR_TAG_RE = <br\s*/?>\<close>, ignoring case.\<close>

definition BR_TAG_RE :: matcher where
  "BR_TAG_RE s =
     (case s of
        lt # b # r # t \<Rightarrow>
          let ws = takeWhile is_space t;
              t1 = dropWhile is_space t;
              sl = (case t1 of [] \<Rightarrow> 0 | c # _ \<Rightarrow> if c = 47 then 1 else 0);
              t2 = drop sl t1
          in if lt = 60 \<and> (b = 98 \<or> b = 66) \<and> (r = 114 \<or> r = 82) \<and> t2 \<noteq> [] \<and> hd t2 = 62
             then Some (3 + length ws + sl + 1) else None
      | _ \<Rightarrow> None)"

text \<open>\<open>HTML_TAG_RE = <[^>]+>\<close>.\<close>

definition HTML_TAG_RE :: matcher where
  "HTML_TAG_RE = delim_match 60 62 1"

text \<open>\<open>ASS_OVERRIDE_RE = \{[^}]*\}\<close>.\<close>

definition ASS_OVERRIDE_RE :: matcher where
  "ASS_OVERRIDE_RE = delim_match 123 125 0"

text \<open>\<open>ASS_NEWLINE_RE = \\[Nn]\<close>: a backslash, then \<open>N\<close> or \<open>n\<close>.\<close>

definition ASS_NEWLINE_RE :: matcher where
  "ASS_NEWLINE_RE s =
     (case s of
        b # n # _ \<Rightarrow> if b = 92 \<and> (n = 78 \<or> n = 110) then Some 2 else None
      | _ \<Rightarrow> None)"

text \<open>\<open>\[[^\]]*\]\<close> and \<open>\([^)]*\)\<close>, the two bracket patterns.\<close>

definition SQUARE_RE :: matcher where
  "SQUARE_RE = delim_match 91 93 0"

definition PAREN_RE :: matcher where
  "PAREN_RE = delim_match 40 41 0"

text \<open>\<open>\s+\<close>.\<close>

definition SPACES_RE :: matcher where
  "SPACES_RE s = (case takeWhile is_space s of [] \<Rightarrow> None | w # ws \<Rightarrow> Some (Suc (length ws)))"

text \<open>\<open>pattern.fullmatch(s)\<close> for the deterministic patterns above.\<close>

definition fullmatch :: "matcher \<Rightarrow> ustr \<Rightarrow> bool" where
  "fullmatch m s \<longleftrightarrow> m s = Some (length s)"

text \<open>\<open>re.sub(pattern, repl, s)\<close> with a constant replacement. A match has length
  \<open>n \<ge> 1\<close>, so the text behind it is \<open>drop (n - 1)\<close> of the tail.\<close>

fun re_sub :: "matcher \<Rightarrow> ustr \<Rightarrow> ustr \<Rightarrow> ustr" where
  "re_sub m repl [] = []"
| "re_sub m repl (c # cs) =
     (case m (c # cs) of
        None \<Rightarrow> c # re_sub m repl cs
      | Some n \<Rightarrow> repl @ re_sub m repl (drop (n - 1) cs))"

section \<open>Configuration\<close>

record SDHConfig =
  remove_between_square :: bool
  remove_between_paren :: bool
  between_only_if_separate_line :: bool
  remove_text_before_colon :: bool
  colon_only_if_uppercase :: bool
  remove_if_only_music_symbols :: bool

text \<open>\<open>SDHConfig()\<close>, the defaults, and the presets built from it.\<close>

definition default_config :: SDHConfig where
  "default_config =
     \<lparr>remove_between_square = True, remove_between_paren = True,
      between_only_if_separate_line = False, remove_text_before_colon = True,
      colon_only_if_uppercase = True, remove_if_only_music_symbols = True\<rparr>"

definition conservative_config :: SDHConfig where
  "conservative_config = default_config\<lparr>between_only_if_separate_line := True\<rparr>"

definition PRESETS :: "string \<rightharpoonup> SDHConfig" where
  "PRESETS = [''aggressive'' \<mapsto> default_config, ''netflix'' \<mapsto> default_config,
              ''conservative'' \<mapsto> conservative_config]"

section \<open>Speaker prefixes\<close>

text \<open>
  The character class of \<open>SPEAKER_RE\<close>: the capitals \<open>A\<close>..\<open>Z\<close>,
  the seven accented capitals U+00C1, U+00C9, U+00CD, U+00D3, U+00DA, U+00DC, U+00D1,
  the digits, the space, both quotes, the ampersand, the parentheses, the full stop
  and the hyphen.
\<close>

definition speaker_char :: "uchar \<Rightarrow> bool" where
  "speaker_char c \<longleftrightarrow>
     (65 \<le> c \<and> c \<le> 90) \<or> c = 193 \<or> c = 201 \<or> c = 205 \<or> c = 211 \<or> c = 218 \<or>
     c = 220 \<or> c = 209 \<or> (48 \<le> c \<and> c \<le> 57) \<or> c = 32 \<or> c = 39 \<or> c = 34 \<or> c = 38 \<or>
     c = 40 \<or> c = 41 \<or> c = 46 \<or> c = 45"

text \<open>
  The part of \<open>SPEAKER_RE\<close> before the colon, \<open>^\s*([...]{2,}):\<close>, tried with the first
  \<open>k\<close> characters given to \<open>\s*\<close>. The class does not hold the colon, so the group is
  the whole run of class characters from \<open>k\<close> on, and a colon must follow it.
\<close>

definition speaker_head :: "ustr \<Rightarrow> nat \<Rightarrow> bool" where
  "speaker_head s k =
     (let run = takeWhile speaker_char (drop k s)
      in 2 \<le> length run \<and> take 1 (drop (k + length run) s) = [58])"

text \<open>
  The part behind the colon, \<open>\s*(.+)$\<close>, tried with \<open>\s*\<close> ending at the start of \<open>u\<close>:
  the dot takes no line feed, and \<open>$\<close> holds at the end of the string or before a line
  feed that ends it, so the group is the run up to the first line feed, it is not empty,
  and at most one line feed is left behind it.
\<close>

definition speaker_tail :: "ustr \<Rightarrow> bool" where
  "speaker_tail u =
     (let body = takeWhile (\<lambda>c. c \<noteq> 10) u; left = dropWhile (\<lambda>c. c \<noteq> 10) u
      in body \<noteq> [] \<and> (left = [] \<or> left = [10]))"

text \<open>
  \<open>SPEAKER_RE.match(line)\<close> and its two groups. Both \<open>\s*\<close> are greedy: the longest
  stretch of whitespace is tried first and given back one character at a time (the class
  holds the space, and the dot takes whitespace, so a shorter stretch can succeed where
  the longest fails).
\<close>

definition SPEAKER_RE :: "ustr \<Rightarrow> (ustr \<times> ustr) option" where
  "SPEAKER_RE s =
     (case find (speaker_head s) (rev [0..<Suc (length (takeWhile is_space s))]) of
        None \<Rightarrow> None
      | Some k \<Rightarrow>
          let speaker = takeWhile speaker_char (drop k s);
              after = drop (k + length speaker + 1) s
          in (case find (\<lambda>j. speaker_tail (drop j after))
                        (rev [0..<Suc (length (takeWhile is_space after))]) of
                None \<Rightarrow> None
              | Some j \<Rightarrow> Some (speaker, takeWhile (\<lambda>c. c \<noteq> 10) (drop j after))))"

text \<open>
  \<open>str.upper()\<close>, character by character, for the code points up to U+00FF: the small
  letters \<open>a\<close>..\<open>z\<close> and U+00E0..U+00FE (but not the division sign U+00F7) move down
  by 32, U+00DF becomes \<open>SS\<close>, U+00B5 becomes U+039C and U+00FF becomes U+0178. The
  program applies it to the speaker group only, whose characters all lie in that range;
  code points above it are left as they are.
\<close>

definition upper_char :: "uchar \<Rightarrow> ustr" where
  "upper_char c =
     (if (97 \<le> c \<and> c \<le> 122) \<or> (224 \<le> c \<and> c \<le> 254 \<and> c \<noteq> 247) then [c - 32]
      else if c = 223 then [83, 83]
      else if c = 181 then [924]
      else if c = 255 then [376]
      else [c])"

definition upper :: "ustr \<Rightarrow> ustr" where
  "upper s = concat (map upper_char s)"

definition strip_speaker :: "ustr \<Rightarrow> SDHConfig \<Rightarrow> ustr" where
  "strip_speaker line cfg =
     (if \<not> remove_text_before_colon cfg then line
      else case SPEAKER_RE line of
             None \<Rightarrow> line
           | Some (speaker, rest) \<Rightarrow>
               if colon_only_if_uppercase cfg \<and> speaker \<noteq> upper speaker then line
               else rest)"

section \<open>Music lines and brackets\<close>

text \<open>\<open>MUSIC_SYMBOLS\<close>: U+266A, U+266B, U+266C, U+2669, U+266D, U+266F.\<close>

definition MUSIC_SYMBOLS :: "uchar list" where
  "MUSIC_SYMBOLS = [9834, 9835, 9836, 9833, 9837, 9839]"

definition only_music :: "ustr \<Rightarrow> bool" where
  "only_music line =
     (let stripped = strip line
      in if stripped = [] then False else list_all (\<lambda>c. c \<in> set MUSIC_SYMBOLS) stripped)"

definition remove_inline_brackets :: "ustr \<Rightarrow> SDHConfig \<Rightarrow> ustr" where
  "remove_inline_brackets line cfg =
     (let line1 = (if remove_between_square cfg \<and> \<not> between_only_if_separate_line cfg
                   then re_sub SQUARE_RE [] line else line)
      in if remove_between_paren cfg \<and> \<not> between_only_if_separate_line cfg
         then re_sub PAREN_RE [] line1 else line1)"

definition should_drop_line_for_brackets :: "ustr \<Rightarrow> SDHConfig \<Rightarrow> bool" where
  "should_drop_line_for_brackets line cfg =
     (if \<not> between_only_if_separate_line cfg then False
      else let stripped = strip line
           in if remove_between_square cfg \<and> fullmatch SQUARE_RE stripped then True
              else if remove_between_paren cfg \<and> fullmatch PAREN_RE stripped then True
              else False)"

section \<open>Cleaning one line\<close>

text \<open>The placeholder \<open>f"__TAG_{idx}__"\<close>.\<close>

definition tag_token :: "nat \<Rightarrow> ustr" where
  "tag_token idx = cps ''__TAG_'' @ str_nat idx @ cps ''__''"

text \<open>
  \<open>pattern.sub(_store, line)\<close>: each match is appended to \<open>placeholders\<close> and replaced by
  the placeholder of its position in that list. The state of the scan is the pair of the
  text still to read and the list; the result is the new line and the list.
\<close>

fun sub_store :: "matcher \<Rightarrow> ustr \<times> ustr list \<Rightarrow> ustr \<times> ustr list" where
  "sub_store m ([], placeholders) = ([], placeholders)"
| "sub_store m (c # cs, placeholders) =
     (case m (c # cs) of
        None \<Rightarrow>
          (let r = sub_store m (cs, placeholders) in (c # fst r, snd r))
      | Some n \<Rightarrow>
          (let r = sub_store m (drop (n - 1) cs, placeholders @ [take n (c # cs)])
           in (tag_token (length placeholders) @ fst r, snd r)))"

text \<open>\<open>str.replace(old, new)\<close> for a non-empty \<open>old\<close>: the occurrences are found left to
  right and do not overlap.\<close>

fun replace :: "ustr \<Rightarrow> ustr \<Rightarrow> ustr \<Rightarrow> ustr" where
  "replace old new [] = []"
| "replace old new (c # cs) =
     (if prefix old (c # cs) then new @ replace old new (drop (length old - 1) cs)
      else c # replace old new cs)"

text \<open>The restoring loop \<open>for idx, original in enumerate(placeholders)\<close>, from \<open>idx\<close> on.\<close>

fun restore :: "nat \<Rightarrow> ustr list \<Rightarrow> ustr \<Rightarrow> ustr" where
  "restore idx [] line = line"
| "restore idx (original # rest) line =
     restore (Suc idx) rest (replace (tag_token idx) original line)"

text \<open>The four shielding passes, in the order of the source, starting from the line and
  the empty list of placeholders.\<close>

definition shield :: "ustr \<Rightarrow> ustr \<times> ustr list" where
  "shield line =
     sub_store ASS_NEWLINE_RE
       (sub_store ASS_OVERRIDE_RE
          (sub_store HTML_TAG_RE
             (sub_store BR_TAG_RE (line, []))))"

text \<open>The rules between shielding and restoring: inline brackets, the speaker prefix,
  \<open>re.sub(r"\s+", " ", line).strip()\<close>.\<close>

definition clean_rules :: "ustr \<Rightarrow> SDHConfig \<Rightarrow> ustr" where
  "clean_rules line cfg =
     strip (re_sub SPACES_RE [32] (strip_speaker (remove_inline_brackets line cfg) cfg))"

definition clean_line :: "ustr \<Rightarrow> SDHConfig \<Rightarrow> ustr option" where
  "clean_line line cfg =
     (if should_drop_line_for_brackets line cfg then None
      else
        let shielded = shield line;
            line7 = clean_rules (fst shielded) cfg
        in if remove_if_only_music_symbols cfg \<and> only_music line7 then None
           else Some (restore 0 (snd shielded) line7))"

text \<open>The loop of \<open>sdh_to_full_lines\<close>. \<open>if result:\<close> is Python's truth test: \<open>None\<close>
  and the empty string are both false.\<close>

fun sdh_to_full_lines :: "ustr list \<Rightarrow> SDHConfig \<Rightarrow> ustr list" where
  "sdh_to_full_lines [] cfg = []"
| "sdh_to_full_lines (line # lines) cfg =
     (case clean_line (rstrip_nl line) cfg of
        None \<Rightarrow> sdh_to_full_lines lines cfg
      | Some result \<Rightarrow>
          if result \<noteq> [] then result # sdh_to_full_lines lines cfg
          else sdh_to_full_lines lines cfg)"

section \<open>The cue classifier\<close>

text \<open>
  \<open>str.isalpha\<close>, \<open>str.isupper\<close> and the regex classes \<open>\d\<close> and \<open>\w\<close> read the
  character database of the Python runtime, which is no part of the repository: the
  classifier takes the four tables as a parameter.
\<close>

record chardb =
  isalpha :: "uchar \<Rightarrow> bool"
  isupper :: "uchar \<Rightarrow> bool"
  re_digit :: "uchar \<Rightarrow> bool"
  re_word :: "uchar \<Rightarrow> bool"

text \<open>
  The tables of the runtime on U+0000..U+00FF (Basic Latin and Latin-1 Supplement).
  Letters: \<open>A\<close>..\<open>Z\<close>, \<open>a\<close>..\<open>z\<close>, U+00AA, U+00B5, U+00BA, U+00C0..U+00FF without
  U+00D7 and U+00F7; capitals: \<open>A\<close>..\<open>Z\<close>, U+00C0..U+00DE without U+00D7; decimal
  digits: \<open>0\<close>..\<open>9\<close>; word characters: letters, digits, the underscore, and the numeric
  U+00B2, U+00B3, U+00B9, U+00BC..U+00BE.
  The database of the runtime also has letters, capitals, digits and word characters above
  U+00FF; \<open>latin1_db\<close> has none there, so it stands for the runtime only on lines all of
  whose characters lie in U+0000..U+00FF, and every line it is applied to below is such a
  line. What holds of the classifier whatever the tables are is stated for an arbitrary
  \<open>db\<close>.
\<close>

definition latin1_alpha :: "uchar \<Rightarrow> bool" where
  "latin1_alpha c \<longleftrightarrow>
     (65 \<le> c \<and> c \<le> 90) \<or> (97 \<le> c \<and> c \<le> 122) \<or> c = 170 \<or> c = 181 \<or> c = 186 \<or>
     (192 \<le> c \<and> c \<le> 255 \<and> c \<noteq> 215 \<and> c \<noteq> 247)"

definition latin1_db :: chardb where
  "latin1_db =
     \<lparr>isalpha = latin1_alpha,
      isupper = (\<lambda>c. (65 \<le> c \<and> c \<le> 90) \<or> (192 \<le> c \<and> c \<le> 222 \<and> c \<noteq> 215)),
      re_digit = (\<lambda>c. 48 \<le> c \<and> c \<le> 57),
      re_word = (\<lambda>c. latin1_alpha c \<or> (48 \<le> c \<and> c \<le> 57) \<or> c = 95 \<or> c = 178 \<or>
                      c = 179 \<or> c = 185 \<or> (188 \<le> c \<and> c \<le> 190))\<rparr>"

text \<open>The class of \<open>FORCED_RE\<close>: \<open>A\<close>..\<open>Z\<close>, the seven accented capitals, \<open>\s\<close>, \<open>\d\<close>,
  \<open>\W\<close>.\<close>

definition forced_char :: "chardb \<Rightarrow> uchar \<Rightarrow> bool" where
  "forced_char db c \<longleftrightarrow>
     (65 \<le> c \<and> c \<le> 90) \<or> c = 193 \<or> c = 201 \<or> c = 205 \<or> c = 211 \<or> c = 218 \<or>
     c = 209 \<or> c = 220 \<or> is_space c \<or> re_digit db c \<or> \<not> re_word db c"

text \<open>The override code \<open>{\an8}\<close>.\<close>

definition an8 :: ustr where
  "an8 = [123, 92, 97, 110, 56, 125]"

text \<open>
  \<open>FORCED_RE.fullmatch(text)\<close>: the first alternative spans the text when the text is
  not empty and all of it lies in the class, the second when the text is \<open>{\an8}\<close>.
\<close>

definition FORCED_RE_fullmatch :: "chardb \<Rightarrow> ustr \<Rightarrow> bool" where
  "FORCED_RE_fullmatch db s \<longleftrightarrow> (s \<noteq> [] \<and> list_all (forced_char db) s) \<or> s = an8"

definition is_all_caps_cue :: "chardb \<Rightarrow> ustr \<Rightarrow> bool" where
  "is_all_caps_cue db line =
     (let text = strip line
      in if text = [] then False
         else if \<not> FORCED_RE_fullmatch db text then False
         else let letters = filter (isalpha db) text
              in if length letters < 2 then False else list_all (isupper db) letters)"

text \<open>\<open>cue_checker or is_all_caps_cue\<close>: a function given by the caller replaces the
  classifier.\<close>

definition checker_of :: "chardb \<Rightarrow> (ustr \<Rightarrow> bool) option \<Rightarrow> ustr \<Rightarrow> bool" where
  "checker_of db cue_checker = (case cue_checker of None \<Rightarrow> is_all_caps_cue db | Some f \<Rightarrow> f)"

definition full_to_forced_lines :: "chardb \<Rightarrow> ustr list \<Rightarrow> (ustr \<Rightarrow> bool) option \<Rightarrow> ustr list" where
  "full_to_forced_lines db lines cue_checker = filter (checker_of db cue_checker) lines"

section \<open>Entries: parsing and formatting\<close>

record SRTBlock =
  index :: ustr
  timing :: ustr
  texts :: "ustr list"

text \<open>
  \<open>_make_block\<close>. \<open>lines[0]\<close> and \<open>lines[1]\<close> raise \<open>IndexError\<close> out of range;
  \<open>item\<close> is the checked read and \<open>None\<close> the error. The slice \<open>lines[2:]\<close> never raises.
\<close>

definition item :: "'a list \<Rightarrow> nat \<Rightarrow> 'a option" where
  "item xs i = (if i < length xs then Some (xs ! i) else None)"

definition make_block :: "ustr list \<Rightarrow> SRTBlock option" where
  "make_block lines =
     (if length lines < 2 then Some \<lparr>index = [], timing = [], texts = lines\<rparr>
      else case item lines 0 of
             None \<Rightarrow> None
           | Some idx \<Rightarrow>
               (case item lines 1 of
                  None \<Rightarrow> None
                | Some tm \<Rightarrow> Some \<lparr>index = idx, timing = tm, texts = drop 2 lines\<rparr>))"

text \<open>The loop of \<open>parse_srt\<close> over the lines; its state is the pair of \<open>blocks\<close> and
  \<open>buffer\<close>, and \<open>None\<close> is an error raised by \<open>_make_block\<close>.\<close>

fun parse_loop :: "ustr list \<Rightarrow> SRTBlock list \<times> ustr list \<Rightarrow> (SRTBlock list \<times> ustr list) option" where
  "parse_loop [] st = Some st"
| "parse_loop (line # lines) st =
     (if strip line = [] then
        (if snd st \<noteq> [] then
           (case make_block (snd st) of
              None \<Rightarrow> None
            | Some b \<Rightarrow> parse_loop lines (fst st @ [b], []))
         else parse_loop lines st)
      else parse_loop lines (fst st, snd st @ [rstrip_nl line]))"

definition parse_srt :: "ustr list \<Rightarrow> SRTBlock list option" where
  "parse_srt lines =
     (case parse_loop lines ([], []) of
        None \<Rightarrow> None
      | Some st \<Rightarrow>
          if snd st \<noteq> [] then
            (case make_block (snd st) of None \<Rightarrow> None | Some b \<Rightarrow> Some (fst st @ [b]))
          else Some (fst st))"

text \<open>\<open>str(counter if renumber else block.index or counter)\<close>.\<close>

definition index_line :: "bool \<Rightarrow> SRTBlock \<Rightarrow> nat \<Rightarrow> ustr" where
  "index_line renumber block counter =
     (if renumber then str_nat counter
      else if index block \<noteq> [] then index block else str_nat counter)"

text \<open>The loop of \<open>format_srt\<close>, with \<open>output\<close> and \<open>counter\<close> as its state.\<close>

fun format_loop :: "SRTBlock list \<Rightarrow> bool \<Rightarrow> ustr list \<Rightarrow> nat \<Rightarrow> ustr list" where
  "format_loop [] renumber output counter = output"
| "format_loop (block # blocks) renumber output counter =
     (if texts block = [] then format_loop blocks renumber output counter
      else format_loop blocks renumber
             (output @ [index_line renumber block counter] @ [timing block] @ texts block @ [[]])
             (counter + 1))"

definition format_srt :: "SRTBlock list \<Rightarrow> bool \<Rightarrow> ustr list" where
  "format_srt blocks renumber = format_loop blocks renumber [] 1"

text \<open>\<open>_write_lines\<close>: the text handed to the file or to standard output,
  \<open>"\n".join(lines) + ("\n" if lines else "")\<close>.\<close>

fun join_nl :: "ustr list \<Rightarrow> ustr" where
  "join_nl [] = []"
| "join_nl [l] = l"
| "join_nl (l # ls) = l @ [10] @ join_nl ls"

definition write_lines :: "ustr list \<Rightarrow> ustr" where
  "write_lines lines = join_nl lines @ (if lines \<noteq> [] then [10] else [])"

section \<open>The pipeline over entries\<close>

text \<open>The inner loop of \<open>sdh_to_full_blocks\<close>, which builds \<open>new_texts\<close>; \<open>if cleaned:\<close>
  is the same truth test.\<close>

fun new_texts :: "ustr list \<Rightarrow> SDHConfig \<Rightarrow> ustr list" where
  "new_texts [] cfg = []"
| "new_texts (text # rest) cfg =
     (case clean_line text cfg of
        None \<Rightarrow> new_texts rest cfg
      | Some cleaned \<Rightarrow>
          if cleaned \<noteq> [] then cleaned # new_texts rest cfg else new_texts rest cfg)"

fun sdh_to_full_blocks :: "SRTBlock list \<Rightarrow> SDHConfig \<Rightarrow> SRTBlock list" where
  "sdh_to_full_blocks [] cfg = []"
| "sdh_to_full_blocks (block # blocks) cfg =
     (let nt = new_texts (texts block) cfg
      in if nt \<noteq> []
         then \<lparr>index = index block, timing = timing block, texts = nt\<rparr> # sdh_to_full_blocks blocks cfg
         else sdh_to_full_blocks blocks cfg)"

definition text_without_overrides :: "ustr \<Rightarrow> ustr" where
  "text_without_overrides text = re_sub ASS_OVERRIDE_RE [] text"

fun full_to_forced_blocks :: "chardb \<Rightarrow> SRTBlock list \<Rightarrow> (ustr \<Rightarrow> bool) option \<Rightarrow> SRTBlock list" where
  "full_to_forced_blocks db [] cue_checker = []"
| "full_to_forced_blocks db (block # blocks) cue_checker =
     (if texts block \<noteq> [] \<and>
         list_all (\<lambda>t. checker_of db cue_checker (text_without_overrides t)) (texts block)
      then block # full_to_forced_blocks db blocks cue_checker
      else full_to_forced_blocks db blocks cue_checker)"

section \<open>Notions used to state the properties\<close>

text \<open>The entries \<open>format_srt\<close> does not skip, and the lines it emits for one of them
  when the counter stands at \<open>n\<close>.\<close>

definition emitted :: "SRTBlock list \<Rightarrow> SRTBlock list" where
  "emitted blocks = filter (\<lambda>b. texts b \<noteq> []) blocks"

definition entry_lines :: "bool \<Rightarrow> SRTBlock \<Rightarrow> nat \<Rightarrow> ustr list" where
  "entry_lines renumber b n = index_line renumber b n # timing b # texts b @ [[]]"

text \<open>The input lines an entry holds: its text lines when the index is empty (the entry
  of a one-line buffer), else the index, the timing and the text lines.\<close>

definition block_lines :: "SRTBlock \<Rightarrow> ustr list" where
  "block_lines b = (if index b = [] then texts b else index b # timing b # texts b)"



text \<open>
  The spans \<open>ps\<close> occur in the text \<open>s\<close> one behind the other, in the order of the list and
  without overlap.
\<close>

primrec in_order :: "ustr list \<Rightarrow> ustr \<Rightarrow> bool" where
  "in_order [] = (\<lambda>s. True)"
| "in_order (p # ps) =
     (\<lambda>s. list_ex (\<lambda>k. prefix p (drop k s) \<and> in_order ps (drop (k + length p) s))
                  [0..<Suc (length s)])"

text \<open>
  A shielded line read as a sequence of items: plain characters and placeholders.
  \<open>flat\<close> writes the placeholders out as the program does, \<open>expand\<close> puts the recorded
  spans in their place.
\<close>

datatype item = Ch uchar | Tok nat

fun flat :: "item list \<Rightarrow> ustr" where
  "flat [] = []"
| "flat (Ch c # r) = c # flat r"
| "flat (Tok k # r) = tag_token k @ flat r"

fun expand :: "ustr list \<Rightarrow> item list \<Rightarrow> ustr" where
  "expand ps [] = []"
| "expand ps (Ch c # r) = c # expand ps r"
| "expand ps (Tok k # r) = ps ! k @ expand ps r"

fun toks :: "item list \<Rightarrow> nat list" where
  "toks [] = []"
| "toks (Ch c # r) = toks r"
| "toks (Tok k # r) = k # toks r"

text \<open>No plain character of the items is an underscore (U+005F).\<close>

fun clean_items :: "item list \<Rightarrow> bool" where
  "clean_items [] = True"
| "clean_items (Ch c # r) = (c \<noteq> 95 \<and> clean_items r)"
| "clean_items (Tok k # r) = clean_items r"

text \<open>The items after the placeholders \<open>idx\<close>, \<open>idx + 1\<close>, ... have been replaced by the
  spans \<open>ps\<close>.\<close>

fun subst_range :: "nat \<Rightarrow> ustr list \<Rightarrow> item list \<Rightarrow> item list" where
  "subst_range idx ps [] = []"
| "subst_range idx ps (Ch c # r) = Ch c # subst_range idx ps r"
| "subst_range idx ps (Tok k # r) =
     (if idx \<le> k \<and> k < idx + length ps then map Ch (ps ! (k - idx)) else [Tok k])
       @ subst_range idx ps r"

text \<open>A span of one of the four shielding patterns: a text that \<open>BR_TAG_RE\<close>,
  \<open>HTML_TAG_RE\<close>, \<open>ASS_OVERRIDE_RE\<close> or \<open>ASS_NEWLINE_RE\<close> matches from its first to its
  last character.\<close>

definition is_span :: "ustr \<Rightarrow> bool" where
  "is_span p \<longleftrightarrow>
     fullmatch BR_TAG_RE p \<or> fullmatch HTML_TAG_RE p \<or> fullmatch ASS_OVERRIDE_RE p \<or>
     fullmatch ASS_NEWLINE_RE p"

text \<open>The pattern matches at no position of the text.\<close>

fun unmatched :: "matcher \<Rightarrow> ustr \<Rightarrow> bool" where
  "unmatched m [] = True"
| "unmatched m (c # cs) = (m (c # cs) = None \<and> unmatched m cs)"

text \<open>None of the four shielding patterns matches anywhere in the text.\<close>

definition no_span_left :: "ustr \<Rightarrow> bool" where
  "no_span_left s \<longleftrightarrow>
     unmatched BR_TAG_RE s \<and> unmatched HTML_TAG_RE s \<and> unmatched ASS_OVERRIDE_RE s \<and>
     unmatched ASS_NEWLINE_RE s"

text \<open>Inline bracket removal takes no underscore out of the shielded line \<open>s\<close>: when the
  underscores of \<open>s\<close> are those of its placeholders, no placeholder stands between
  brackets that are removed.\<close>

definition keeps_placeholders :: "SDHConfig \<Rightarrow> ustr \<Rightarrow> bool" where
  "keeps_placeholders cfg s \<longleftrightarrow>
     length (filter (\<lambda>c. c = 95) (remove_inline_brackets s cfg)) = length (filter (\<lambda>c. c = 95) s)"

section \<open>Evaluation\<close>

text \<open>The defining equations that evaluate the model on a concrete line.\<close>

lemmas text_defs = cps_def strip_def is_space_def rstrip_nl_def str_nat.simps

lemmas regex_defs = delim_match_def BR_TAG_RE_def HTML_TAG_RE_def ASS_OVERRIDE_RE_def
  ASS_NEWLINE_RE_def SQUARE_RE_def PAREN_RE_def SPACES_RE_def fullmatch_def

lemmas clean_defs = speaker_char_def speaker_head_def speaker_tail_def SPEAKER_RE_def
  upper_char_def upper_def strip_speaker_def MUSIC_SYMBOLS_def only_music_def
  remove_inline_brackets_def should_drop_line_for_brackets_def tag_token_def shield_def
  clean_rules_def clean_line_def

lemmas config_defs = default_config_def conservative_config_def

lemmas forced_defs = latin1_alpha_def latin1_db_def forced_char_def an8_def
  FORCED_RE_fullmatch_def is_all_caps_cue_def checker_of_def text_without_overrides_def

lemmas block_defs = item_def make_block_def parse_srt_def index_line_def format_srt_def write_lines_def

section \<open>Scenarios\<close>

text \<open>
  C2 (the line as the scenario gives it). The classifier rejects \<open><i>HELLO THERE</i>\<close>:
  the tags are not taken out for the decision, and their letter \<open>i\<close> is a word character
  outside the class of \<open>FORCED_RE\<close> (and not a capital).
\<close>

theorem scenario_c_not_forced:
  "\<not> is_all_caps_cue latin1_db (cps ''<i>HELLO THERE</i>'')"
  by (simp add: text_defs forced_defs)

text \<open>
  C2, amended: an entry whose only line is \<open><i>HELLO THERE</i>\<close> is dropped by
  \<open>full_to_forced_blocks\<close>; with the tags in capitals the line is a forced cue and the
  entry is kept as it is, tags included.
\<close>

theorem scenario_c_tags_count:
  "full_to_forced_blocks latin1_db
     [\<lparr>index = idx, timing = tm, texts = [cps ''<i>HELLO THERE</i>'']\<rparr>] None = [] \<and>
   is_all_caps_cue latin1_db (cps ''<I>HELLO THERE</I>'') \<and>
   full_to_forced_blocks latin1_db
     [\<lparr>index = idx, timing = tm, texts = [cps ''<I>HELLO THERE</I>'']\<rparr>] None =
     [\<lparr>index = idx, timing = tm, texts = [cps ''<I>HELLO THERE</I>'']\<rparr>]"
  by (simp add: text_defs regex_defs forced_defs)

text \<open>
  C8 (scenario E). Under any configuration with \<open>between_only_if_separate_line\<close> and
  \<open>remove_between_square\<close> set, the line \<open>[wind howling]\<close> is dropped by the whole-line
  bracket rule; the three lines parse to the entry of the scenario, which loses its only
  text line and is dropped by \<open>sdh_to_full_blocks\<close>, and nothing of it is formatted.
\<close>

theorem scenario_e_entry_dropped:
  assumes "between_only_if_separate_line cfg" and "remove_between_square cfg"
  shows "should_drop_line_for_brackets (cps ''[wind howling]'') cfg \<and>
         clean_line (cps ''[wind howling]'') cfg = None \<and>
         parse_srt [cps ''1'', cps ''00:00:01,000 --> 00:00:02,000'', cps ''[wind howling]''] =
           Some [\<lparr>index = cps ''1'', timing = cps ''00:00:01,000 --> 00:00:02,000'',
                  texts = [cps ''[wind howling]'']\<rparr>] \<and>
         sdh_to_full_blocks
           [\<lparr>index = cps ''1'', timing = cps ''00:00:01,000 --> 00:00:02,000'',
             texts = [cps ''[wind howling]'']\<rparr>] cfg = [] \<and>
         format_srt (sdh_to_full_blocks
           [\<lparr>index = cps ''1'', timing = cps ''00:00:01,000 --> 00:00:02,000'',
             texts = [cps ''[wind howling]'']\<rparr>] cfg) True = []"
proof -
  have drop: "should_drop_line_for_brackets (cps ''[wind howling]'') cfg"
    using assms by (simp add: should_drop_line_for_brackets_def text_defs regex_defs)
  hence clean: "clean_line (cps ''[wind howling]'') cfg = None"
    by (simp add: clean_line_def)
  have parse: "parse_srt [cps ''1'', cps ''00:00:01,000 --> 00:00:02,000'', cps ''[wind howling]''] =
           Some [\<lparr>index = cps ''1'', timing = cps ''00:00:01,000 --> 00:00:02,000'',
                  texts = [cps ''[wind howling]'']\<rparr>]"
    by (simp add: text_defs block_defs)
  show ?thesis
    using drop clean parse by (simp add: format_srt_def)
qed

theorem scenario_e_entry_dropped_witness:
  "between_only_if_separate_line conservative_config \<and>
   remove_between_square conservative_config \<and>
   clean_line (cps ''[wind howling]'') conservative_config = None \<and>
   format_srt (sdh_to_full_blocks
     [\<lparr>index = cps ''1'', timing = cps ''00:00:01,000 --> 00:00:02,000'',
       texts = [cps ''[wind howling]'']\<rparr>] conservative_config) True = []"
proof -
  have a: "between_only_if_separate_line conservative_config"
    by (simp add: config_defs)
  have b: "remove_between_square conservative_config"
    by (simp add: config_defs)
  show ?thesis
    using a b scenario_e_entry_dropped [OF a b] by blast
qed

section \<open>The formatter\<close>

lemma format_loop_shape:
  "format_loop blocks renumber out counter =
     out @ concat (map (\<lambda>(b, n). entry_lines renumber b n)
                        (zip (emitted blocks) [counter..<counter + length (emitted blocks)]))"
proof (induction blocks arbitrary: out counter)
  case Nil
  show ?case by (simp add: emitted_def)
next
  case (Cons b blocks)
  show ?case
  proof (cases "texts b = []")
    case True
    then show ?thesis using Cons.IH [of out counter] by (simp add: emitted_def)
  next
    case False
    have em: "emitted (b # blocks) = b # emitted blocks"
      using False by (simp add: emitted_def)
    have upt: "[counter..<counter + length (emitted (b # blocks))] =
               counter # [Suc counter..<Suc counter + length (emitted blocks)]"
      unfolding em by (subst upt_conv_Cons) auto
    have "format_loop (b # blocks) renumber out counter =
          format_loop blocks renumber (out @ entry_lines renumber b counter) (Suc counter)"
      using False by (simp add: entry_lines_def)
    also have "\<dots> = (out @ entry_lines renumber b counter) @
          concat (map (\<lambda>(b, n). entry_lines renumber b n)
                   (zip (emitted blocks) [Suc counter..<Suc counter + length (emitted blocks)]))"
      by (rule Cons.IH)
    also have "\<dots> = out @ concat (map (\<lambda>(b, n). entry_lines renumber b n)
                   (zip (emitted (b # blocks)) [counter..<counter + length (emitted (b # blocks))]))"
      unfolding upt by (simp add: em)
    finally show ?thesis .
  qed
qed

lemma concat_entry_last:
  "es \<noteq> [] \<Longrightarrow> length ns = length es \<Longrightarrow>
   last (concat (map (\<lambda>(b, n). entry_lines r b n) (zip es ns))) = []"
proof (induction es arbitrary: ns rule: rev_induct)
  case Nil
  then show ?case by simp
next
  case (snoc e es)
  then obtain ns' n where ns: "ns = ns' @ [n]" "length ns' = length es"
    by (cases ns rule: rev_cases) auto
  then show ?case by (simp add: entry_lines_def)
qed

lemma join_nl_snoc: "ls \<noteq> [] \<Longrightarrow> join_nl (ls @ [l]) = join_nl ls @ [10] @ l"
  by (induction ls rule: join_nl.induct) auto


lemma join_nl_blank_last: "ls \<noteq> [] \<Longrightarrow> join_nl (ls @ [[]]) = join_nl ls @ [10]"
  by (simp add: join_nl_snoc)

text \<open>
  C6 (the claim as stated). After the only entry, which is also the last, \<open>format_srt\<close>
  emits the blank separator line: the output ends with it.
\<close>

theorem format_srt_trailing_separator:
  "last (format_srt [\<lparr>index = cps ''7'', timing = cps ''t'', texts = [cps ''x'']\<rparr>] True) = [] \<and>
   format_srt [\<lparr>index = cps ''7'', timing = cps ''t'', texts = [cps ''x'']\<rparr>] True =
     [cps ''1'', cps ''t'', cps ''x'', []]"
  by (simp add: text_defs block_defs)

text \<open>
  C6, amended. For every list of entries, \<open>format_srt\<close> emits for each entry that has text
  lines, in order, the index line, the timing, the text lines and one blank line, and
  nothing else. The blank line follows the last emitted entry too: a non-empty output
  ends with it, and the text \<open>_write_lines\<close> builds from it (line feeds between the
  lines and one behind) ends with two line feeds.
\<close>

theorem format_srt_separator_after_every_entry:
  "format_srt blocks renumber =
     concat (map (\<lambda>(b, n). entry_lines renumber b n)
                 (zip (emitted blocks) [1..<Suc (length (emitted blocks))])) \<and>
   (emitted blocks \<noteq> [] \<longrightarrow>
      last (format_srt blocks renumber) = [] \<and>
      write_lines (format_srt blocks renumber) =
        join_nl (butlast (format_srt blocks renumber)) @ [10, 10])"
proof -
  let ?out = "format_srt blocks renumber"
  have shape: "?out = concat (map (\<lambda>(b, n). entry_lines renumber b n)
                 (zip (emitted blocks) [1..<Suc (length (emitted blocks))]))"
    by (simp add: format_srt_def format_loop_shape)
  have tail: "last ?out = [] \<and> write_lines ?out = join_nl (butlast ?out) @ [10, 10]"
    if ne: "emitted blocks \<noteq> []"
  proof -
    have l: "last ?out = []"
      unfolding shape using ne by (intro concat_entry_last) (auto simp: Suc_le_eq)
    obtain e es where es: "emitted blocks = e # es"
      using ne by (cases "emitted blocks") auto
    have "length ?out \<ge> 2"
      unfolding shape es by (simp add: entry_lines_def upt_conv_Cons del: upt_Suc)
    hence ne2: "?out \<noteq> []" "butlast ?out \<noteq> []"
      by (auto simp: butlast_conv_take)
    have "?out = butlast ?out @ [[]]"
      using l ne2(1) by (metis append_butlast_last_id)
    hence "join_nl ?out = join_nl (butlast ?out) @ [10]"
      using join_nl_blank_last [OF ne2(2)] by simp
    thus ?thesis using l ne2(1) by (simp add: write_lines_def)
  qed
  show ?thesis using shape tail by blast
qed

theorem format_srt_separator_after_every_entry_witness:
  "emitted [\<lparr>index = cps ''7'', timing = cps ''t'', texts = [cps ''x'']\<rparr>] \<noteq> [] \<and>
   last (format_srt [\<lparr>index = cps ''7'', timing = cps ''t'', texts = [cps ''x'']\<rparr>] False) = [] \<and>
   write_lines (format_srt [\<lparr>index = cps ''7'', timing = cps ''t'', texts = [cps ''x'']\<rparr>] False) =
     join_nl (butlast (format_srt [\<lparr>index = cps ''7'', timing = cps ''t'', texts = [cps ''x'']\<rparr>] False))
       @ [10, 10]"
proof -
  have ne: "emitted [\<lparr>index = cps ''7'', timing = cps ''t'', texts = [cps ''x'']\<rparr>] \<noteq> []"
    by (simp add: emitted_def text_defs)
  show ?thesis
    using ne format_srt_separator_after_every_entry
      [of "[\<lparr>index = cps ''7'', timing = cps ''t'', texts = [cps ''x'']\<rparr>]" False]
    by blast
qed


section \<open>Empty results\<close>

lemma sdh_to_full_lines_append:
  "sdh_to_full_lines (xs @ ys) cfg = sdh_to_full_lines xs cfg @ sdh_to_full_lines ys cfg"
  by (induction xs) (auto split: option.splits)

lemma new_texts_append:
  "new_texts (xs @ ys) cfg = new_texts xs cfg @ new_texts ys cfg"
  by (induction xs) (auto split: option.splits)

lemma sdh_to_full_blocks_append:
  "sdh_to_full_blocks (xs @ ys) cfg = sdh_to_full_blocks xs cfg @ sdh_to_full_blocks ys cfg"
  by (induction xs) (auto simp: Let_def)

lemma new_texts_all_empty:
  "list_all (\<lambda>t. clean_line t cfg = Some [] \<or> clean_line t cfg = None) ts \<Longrightarrow> new_texts ts cfg = []"
  by (induction ts) auto

text \<open>
  C9. A line that \<open>clean_line\<close> turns into the empty string leaves no trace in the output
  of \<open>sdh_to_full_lines\<close> and of the inner loop of \<open>sdh_to_full_blocks\<close>, just as a line
  for which \<open>clean_line\<close> returns \<open>None\<close>; and an entry all of whose text lines clean to
  the empty string (or to \<open>None\<close>) is dropped.
\<close>

theorem empty_result_is_dropped:
  "(clean_line (rstrip_nl l) cfg = Some [] \<or> clean_line (rstrip_nl l) cfg = None \<longrightarrow>
      sdh_to_full_lines (ls1 @ l # ls2) cfg = sdh_to_full_lines (ls1 @ ls2) cfg) \<and>
   (clean_line t cfg = Some [] \<or> clean_line t cfg = None \<longrightarrow>
      new_texts (ts1 @ t # ts2) cfg = new_texts (ts1 @ ts2) cfg) \<and>
   (list_all (\<lambda>t. clean_line t cfg = Some [] \<or> clean_line t cfg = None) (texts b) \<longrightarrow>
      sdh_to_full_blocks (bs1 @ b # bs2) cfg = sdh_to_full_blocks (bs1 @ bs2) cfg)"
proof (intro conjI impI)
  assume "clean_line (rstrip_nl l) cfg = Some [] \<or> clean_line (rstrip_nl l) cfg = None"
  hence "sdh_to_full_lines [l] cfg = []" by auto
  thus "sdh_to_full_lines (ls1 @ l # ls2) cfg = sdh_to_full_lines (ls1 @ ls2) cfg"
    using sdh_to_full_lines_append [of ls1 "[l] @ ls2" cfg]
          sdh_to_full_lines_append [of "[l]" ls2 cfg]
    by (simp add: sdh_to_full_lines_append)
next
  assume "clean_line t cfg = Some [] \<or> clean_line t cfg = None"
  hence "new_texts [t] cfg = []" by auto
  thus "new_texts (ts1 @ t # ts2) cfg = new_texts (ts1 @ ts2) cfg"
    using new_texts_append [of ts1 "[t] @ ts2" cfg] new_texts_append [of "[t]" ts2 cfg]
    by (simp add: new_texts_append)
next
  assume "list_all (\<lambda>t. clean_line t cfg = Some [] \<or> clean_line t cfg = None) (texts b)"
  hence "new_texts (texts b) cfg = []" by (rule new_texts_all_empty)
  hence "sdh_to_full_blocks [b] cfg = []" by simp
  thus "sdh_to_full_blocks (bs1 @ b # bs2) cfg = sdh_to_full_blocks (bs1 @ bs2) cfg"
    using sdh_to_full_blocks_append [of bs1 "[b] @ bs2" cfg]
          sdh_to_full_blocks_append [of "[b]" bs2 cfg]
    by (simp add: sdh_to_full_blocks_append)
qed

lemma clean_bracket_line: "clean_line (cps ''[x]'') default_config = Some []"
  by (simp add: text_defs regex_defs clean_defs config_defs)

lemma clean_paren_line: "clean_line (cps ''(y) '') default_config = Some []"
  by (simp add: text_defs regex_defs clean_defs config_defs)

theorem empty_result_is_dropped_witness:
  "clean_line (rstrip_nl (cps ''[x]'' @ [10])) default_config = Some [] \<and>
   sdh_to_full_lines [cps ''a'', cps ''[x]'' @ [10], cps ''b''] default_config =
     sdh_to_full_lines [cps ''a'', cps ''b''] default_config \<and>
   list_all (\<lambda>t. clean_line t default_config = Some [] \<or> clean_line t default_config = None)
     [cps ''[x]'', cps ''(y) ''] \<and>
   sdh_to_full_blocks
     [\<lparr>index = cps ''1'', timing = cps ''t'', texts = [cps ''[x]'', cps ''(y) '']\<rparr>] default_config = []"
proof -
  have r: "rstrip_nl (cps ''[x]'' @ [10]) = cps ''[x]''"
    by (simp add: text_defs)
  have a: "clean_line (rstrip_nl (cps ''[x]'' @ [10])) default_config = Some []"
    unfolding r by (rule clean_bracket_line)
  have b: "list_all (\<lambda>t. clean_line t default_config = Some [] \<or> clean_line t default_config = None)
     [cps ''[x]'', cps ''(y) '']"
    by (simp add: clean_bracket_line clean_paren_line)
  have b': "list_all (\<lambda>t. clean_line t default_config = Some [] \<or> clean_line t default_config = None)
     (texts \<lparr>index = cps ''1'', timing = cps ''t'', texts = [cps ''[x]'', cps ''(y) '']\<rparr>)"
    using b by simp
  note inst = empty_result_is_dropped
    [of "cps ''[x]'' @ [10]" default_config "[cps ''a'']" "[cps ''b'']" "[]" "[]" "[]"
        "\<lparr>index = cps ''1'', timing = cps ''t'', texts = [cps ''[x]'', cps ''(y) '']\<rparr>" "[]" "[]"]
  show ?thesis using a b b' inst by simp
qed

section \<open>The parser\<close>

lemma rstrip_nl_nonblank: "strip l \<noteq> [] \<Longrightarrow> rstrip_nl l \<noteq> []"
proof (rule ccontr)
  assume ne: "strip l \<noteq> []" and "\<not> rstrip_nl l \<noteq> []"
  hence "dropWhile (\<lambda>c. c = 10) (rev l) = []" by (simp add: rstrip_nl_def)
  hence "\<forall>c \<in> set l. c = 10" by (simp add: dropWhile_eq_Nil_conv)
  hence "\<forall>c \<in> set l. is_space c" by (auto simp: is_space_def)
  hence d: "dropWhile is_space l = []" using dropWhile_eq_Nil_conv by blast
  have "strip l = []" unfolding strip_def d by simp
  with ne show False by simp
qed

lemma make_block_total: "\<exists>b. make_block buf = Some b"
  by (auto simp: make_block_def item_def)

lemma make_block_lines:
  assumes "make_block buf = Some b" and "list_all (\<lambda>l. l \<noteq> []) buf"
  shows "block_lines b = buf"
proof (cases "length buf < 2")
  case True
  with assms show ?thesis by (auto simp: make_block_def block_lines_def)
next
  case False
  then obtain x y rest where buf: "buf = x # y # rest"
    by (cases buf; cases "tl buf") auto
  with assms show ?thesis
    by (auto simp: make_block_def item_def block_lines_def)
qed

lemma parse_loop_lines:
  assumes "list_all (\<lambda>l. l \<noteq> []) (snd st)"
      and "list_all (\<lambda>b. block_lines b \<noteq> []) (fst st)"
  shows "\<exists>st'. parse_loop ls st = Some st' \<and>
           list_all (\<lambda>l. l \<noteq> []) (snd st') \<and>
           list_all (\<lambda>b. block_lines b \<noteq> []) (fst st') \<and>
           concat (map block_lines (fst st')) @ snd st' =
             concat (map block_lines (fst st)) @ snd st @
               map rstrip_nl (filter (\<lambda>l. strip l \<noteq> []) ls)"
  using assms
proof (induction ls arbitrary: st)
  case Nil
  then show ?case by simp
next
  case (Cons l ls)
  show ?case
  proof (cases "strip l = []")
    case blank: True
    show ?thesis
    proof (cases "snd st = []")
      case True
      with blank Cons.IH [OF Cons.prems] show ?thesis by simp
    next
      case False
      obtain b where b: "make_block (snd st) = Some b"
        using make_block_total by blast
      have bl: "block_lines b = snd st"
        using b Cons.prems(1) by (rule make_block_lines)
      have p1: "list_all (\<lambda>l. l \<noteq> []) (snd (fst st @ [b], []))"
        by simp
      have p2: "list_all (\<lambda>b. block_lines b \<noteq> []) (fst (fst st @ [b], []))"
        using Cons.prems False bl by simp
      note Cons.IH [OF p1 p2]
      with blank False b bl show ?thesis by simp
    qed
  next
    case False
    have ne: "rstrip_nl l \<noteq> []" using False by (rule rstrip_nl_nonblank)
    have p1: "list_all (\<lambda>l. l \<noteq> []) (snd (fst st, snd st @ [rstrip_nl l]))"
      using Cons.prems ne by simp
    have p2: "list_all (\<lambda>b. block_lines b \<noteq> []) (fst (fst st, snd st @ [rstrip_nl l]))"
      using Cons.prems by simp
    note Cons.IH [OF p1 p2]
    with False show ?thesis by simp
  qed
qed

text \<open>
  C10. For every sequence of lines, \<open>parse_srt\<close> returns (no read of \<open>_make_block\<close> is out
  of range), every returned entry holds at least one line, and the lines of the entries,
  one entry after the other, are exactly the input lines that are not blank, in order
  and without their trailing line feeds: blank lines, alone or in a run, give no entry
  and no line of an entry.
\<close>

theorem parse_srt_total_nonempty:
  "\<exists>blocks. parse_srt ls = Some blocks \<and>
      list_all (\<lambda>b. block_lines b \<noteq> []) blocks \<and>
      concat (map block_lines blocks) = map rstrip_nl (filter (\<lambda>l. strip l \<noteq> []) ls) \<and>
      (list_all (\<lambda>l. strip l = []) ls \<longrightarrow> blocks = [])"
proof -
  have none: "blocks = []"
    if "list_all (\<lambda>b. block_lines b \<noteq> []) blocks"
       "concat (map block_lines blocks) = map rstrip_nl (filter (\<lambda>l. strip l \<noteq> []) ls)"
       "list_all (\<lambda>l. strip l = []) ls" for blocks
  proof -
    have "filter (\<lambda>l. strip l \<noteq> []) ls = []"
      using that(3) by (simp add: list_all_iff filter_empty_conv)
    hence "concat (map block_lines blocks) = []" using that(2) by simp
    thus ?thesis using that(1) by (cases blocks) (auto simp: list_all_iff)
  qed
  obtain st' where st': "parse_loop ls ([], []) = Some st'"
      "list_all (\<lambda>l. l \<noteq> []) (snd st')"
      "list_all (\<lambda>b. block_lines b \<noteq> []) (fst st')"
      "concat (map block_lines (fst st')) @ snd st' =
         map rstrip_nl (filter (\<lambda>l. strip l \<noteq> []) ls)"
    using parse_loop_lines [of "([], [])" ls] by auto
  show ?thesis
  proof (cases "snd st' = []")
    case True
    with st' none [of "fst st'"] show ?thesis by (auto simp add: parse_srt_def)
  next
    case False
    obtain b where b: "make_block (snd st') = Some b"
      using make_block_total by blast
    have bl: "block_lines b = snd st'"
      using b st'(2) by (rule make_block_lines)
    with False st' b none [of "fst st' @ [b]"] show ?thesis by (auto simp add: parse_srt_def)
  qed
qed

theorem parse_srt_total_nonempty_witness:
  "list_all (\<lambda>l. strip l = []) [[], cps '' '', [10], [9, 10]] \<and>
   parse_srt [[], cps '' '', [10], [9, 10]] = Some []"
proof -
  have blank: "list_all (\<lambda>l. strip l = []) [[], cps '' '', [10], [9, 10]]"
    by (simp add: text_defs)
  show ?thesis
    using blank parse_srt_total_nonempty [of "[[], cps '' '', [10], [9, 10]]"] by auto
qed

section \<open>The speaker rule\<close>

lemma find_rev_upt_Suc:
  "find P (rev [0..<Suc w]) = (if P w then Some w else find P (rev [0..<w]))"
  by simp

lemma find_rev_upt_Some:
  "P k \<Longrightarrow> k \<le> w \<Longrightarrow> \<exists>k0. find P (rev [0..<Suc w]) = Some k0 \<and> k \<le> k0 \<and> k0 \<le> w \<and> P k0"
proof (induction w)
  case 0
  then show ?case by simp
next
  case (Suc w)
  show ?case
  proof (cases "P (Suc w)")
    case True
    then show ?thesis using Suc.prems by (simp del: upt_Suc add: find_rev_upt_Suc)
  next
    case False
    hence "k \<le> w" using Suc.prems by (cases "k = Suc w") auto
    from Suc.IH [OF Suc.prems(1) this] False show ?thesis
      by (subst find_rev_upt_Suc) auto
  qed
qed

lemma find_rev_upt_None:
  "(\<And>k. k \<le> w \<Longrightarrow> \<not> P k) \<Longrightarrow> find P (rev [0..<Suc w]) = None"
  by (simp add: find_None_iff)

lemma upper_speaker: "list_all speaker_char s \<Longrightarrow> upper s = s"
proof (induction s)
  case Nil
  show ?case by (simp add: upper_def)
next
  case (Cons c s)
  hence "speaker_char c" by simp
  hence "upper_char c = [c]"
    by (auto simp: speaker_char_def upper_char_def)
  with Cons show ?case by (simp add: upper_def)
qed

lemma speaker_char_not_colon: "speaker_char c \<Longrightarrow> c \<noteq> 58"
  by (auto simp: speaker_char_def)

lemma is_space_not_colon: "is_space c \<Longrightarrow> c \<noteq> 58"
  by (auto simp: is_space_def)

lemma takeWhile_speaker_colon:
  "list_all speaker_char run \<Longrightarrow> takeWhile speaker_char (run @ 58 # r) = run"
  by (induction run) (auto simp: speaker_char_def)

lemma speaker_head_at:
  assumes "drop k s = run @ 58 # a" and "list_all speaker_char run"
  shows "speaker_head s k \<longleftrightarrow> 2 \<le> length run"
    and "takeWhile speaker_char (drop k s) = run"
    and "drop (k + length run + 1) s = a"
proof -
  show run: "takeWhile speaker_char (drop k s) = run"
    unfolding assms(1) using assms(2) by (rule takeWhile_speaker_colon)
  have "drop (k + length run) s = drop (length run) (drop k s)"
    by (simp add: add.commute)
  hence dr: "drop (k + length run) s = 58 # a"
    by (simp add: assms(1))
  show "speaker_head s k \<longleftrightarrow> 2 \<le> length run"
    unfolding speaker_head_def run Let_def dr by simp
  have "drop (k + length run + 1) s = drop 1 (drop (k + length run) s)"
    by (simp add: add.commute)
  thus "drop (k + length run + 1) s = a"
    unfolding dr by simp
qed

text \<open>What \<open>\s*(.+)$\<close> leaves of a text without line feed: the text behind its leading
  whitespace, or its last character when it is whitespace throughout.\<close>

lemma speaker_tail_find:
  assumes "after \<noteq> []" and "10 \<notin> set after"
  shows "\<exists>j. find (\<lambda>j. speaker_tail (drop j after))
               (rev [0..<Suc (length (takeWhile is_space after))]) = Some j \<and>
             takeWhile (\<lambda>c. c \<noteq> 10) (drop j after) =
               (if list_all is_space after then [last after] else dropWhile is_space after)"
proof -
  let ?P = "\<lambda>j. speaker_tail (drop j after)"
  let ?w = "length (takeWhile is_space after)"
  have nl: "takeWhile (\<lambda>c. c \<noteq> 10) (drop j after) = drop j after" for j
    using assms(2) by (auto simp: takeWhile_eq_all_conv dest: in_set_dropD)
  have nl': "dropWhile (\<lambda>c. c \<noteq> 10) (drop j after) = []" for j
    using assms(2) by (auto simp: dropWhile_eq_Nil_conv dest: in_set_dropD)
  have P: "?P j \<longleftrightarrow> j < length after" for j
    by (auto simp add: speaker_tail_def nl nl')
  show ?thesis
  proof (cases "list_all is_space after")
    case True
    hence "takeWhile is_space after = after"
      by (simp add: list_all_iff takeWhile_eq_all_conv)
    hence w: "?w = length after"
      by (rule arg_cong)
    have "?P (length after - 1)" "length after - 1 \<le> ?w"
      using assms(1) by (auto simp: P w)
    from find_rev_upt_Some [of ?P, OF this] obtain k0 where
      k0: "find ?P (rev [0..<Suc ?w]) = Some k0" "length after - 1 \<le> k0" "?P k0"
      by blast
    hence "k0 = length after - 1" by (auto simp: P)
    moreover have "drop (length (butlast after)) (butlast after @ [last after]) = [last after]"
      by simp
    ultimately have "drop k0 after = [last after]"
      using assms(1) by simp
    with k0 True show ?thesis by (auto simp: nl)
  next
    case False
    hence "0 < length (dropWhile is_space after)"
      by (simp add: list_all_iff)
    moreover have "length (takeWhile is_space after) + length (dropWhile is_space after) =
                   length after"
      by (metis length_append takeWhile_dropWhile_id)
    ultimately have "?w < length after"
      by linarith
    hence "?P ?w" by (simp add: P)
    hence "find ?P (rev [0..<Suc ?w]) = Some ?w"
      by (subst find_rev_upt_Suc) simp
    with False show ?thesis by (auto simp: nl dropWhile_eq_drop)
  qed
qed

lemma SPEAKER_RE_match:
  assumes ws: "list_all is_space ws" and pre: "list_all speaker_char pre" "2 \<le> length pre"
      and after: "after \<noteq> []" "10 \<notin> set after"
  shows "\<exists>speaker. list_all speaker_char speaker \<and>
           SPEAKER_RE (ws @ pre @ 58 # after) =
             Some (speaker, if list_all is_space after then [last after]
                            else dropWhile is_space after)"
proof -
  let ?s = "ws @ pre @ 58 # after"
  let ?w = "length (takeWhile is_space ?s)"
  have tw: "takeWhile is_space ?s = ws @ takeWhile is_space (pre @ 58 # after)"
    using ws by (simp add: list_all_iff takeWhile_append2)
  have "?w \<le> length ws + length pre"
  proof -
    have "takeWhile is_space (pre @ 58 # after) = takeWhile is_space pre"
      by (induction pre) (auto simp: is_space_def)
    thus ?thesis using length_takeWhile_le [of is_space pre] by (simp add: tw)
  qed
  hence wle: "?w \<le> length ws + length pre" .
  have wge: "length ws \<le> ?w" by (simp add: tw)
  have d: "drop k ?s = drop (k - length ws) pre @ 58 # after"
    if "length ws \<le> k" "k \<le> length ws + length pre" for k
    using that by simp
  have sp: "list_all speaker_char (drop n pre)" for n
    using pre(1) by (auto simp: list_all_iff dest: in_set_dropD)
  have "speaker_head ?s (length ws)"
    using speaker_head_at(1) [of "length ws" ?s pre after] pre by simp
  from find_rev_upt_Some [of "speaker_head ?s", OF this wge] obtain k0 where
    k0: "find (speaker_head ?s) (rev [0..<Suc ?w]) = Some k0" "length ws \<le> k0" "k0 \<le> ?w"
        "speaker_head ?s k0"
    by blast
  have k0le: "k0 \<le> length ws + length pre" using k0(3) wle by simp
  note at = speaker_head_at [OF d [OF k0(2) k0le] sp]
  have run: "takeWhile speaker_char (drop k0 ?s) = drop (k0 - length ws) pre"
    by (rule at(2))
  have aft: "drop (k0 + length (drop (k0 - length ws) pre) + 1) ?s = after"
    by (rule at(3))
  obtain j where j: "find (\<lambda>j. speaker_tail (drop j after))
               (rev [0..<Suc (length (takeWhile is_space after))]) = Some j"
      "takeWhile (\<lambda>c. c \<noteq> 10) (drop j after) =
         (if list_all is_space after then [last after] else dropWhile is_space after)"
    using speaker_tail_find [OF after] by blast
  have "SPEAKER_RE ?s = Some (drop (k0 - length ws) pre,
          if list_all is_space after then [last after] else dropWhile is_space after)"
    unfolding SPEAKER_RE_def k0(1) by (simp only: option.case Let_def run aft j)
  thus ?thesis using sp by blast
qed


lemma takeWhile_stop:
  "\<forall>c \<in> set xs. P c \<Longrightarrow> \<not> P x \<Longrightarrow> takeWhile P (xs @ x # l) = xs"
  by (induction xs) auto

lemma takeWhile_length_mono:
  "(\<And>x. P x \<Longrightarrow> Q x) \<Longrightarrow> length (takeWhile P xs) \<le> length (takeWhile Q xs)"
  by (induction xs) auto

lemma takeWhile_drop_within:
  "n \<le> length (takeWhile P xs) \<Longrightarrow> takeWhile P (drop n xs) = drop n (takeWhile P xs)"
proof (induction xs arbitrary: n)
  case Nil
  show ?case by simp
next
  case (Cons x xs)
  show ?case
  proof (cases n)
    case 0
    then show ?thesis by simp
  next
    case (Suc m)
    with Cons.prems have "P x" "m \<le> length (takeWhile P xs)"
      by (auto split: if_splits)
    with Cons.IH [of m] Suc show ?thesis by simp
  qed
qed

lemma speaker_head_shape:
  assumes "speaker_head s k"
  shows "\<exists>run r. drop k s = run @ 58 # r \<and> list_all speaker_char run \<and> 2 \<le> length run"
proof -
  let ?run = "takeWhile speaker_char (drop k s)"
  let ?rest = "dropWhile speaker_char (drop k s)"
  have len: "2 \<le> length ?run" and col: "take 1 (drop (k + length ?run) s) = [58]"
    using assms by (simp_all add: speaker_head_def Let_def)
  have "drop (k + length ?run) s = drop (length ?run) (drop k s)"
    by (simp add: add.commute)
  also have "\<dots> = ?rest"
    by (simp add: dropWhile_eq_drop)
  finally have "take 1 ?rest = [58]" using col by simp
  then obtain r where r: "?rest = 58 # r"
    by (cases ?rest) auto
  have "drop k s = ?run @ ?rest" by simp
  hence "drop k s = ?run @ 58 # r" using r by simp
  moreover have "list_all speaker_char ?run"
    by (auto simp: list_all_iff dest: set_takeWhileD)
  ultimately show ?thesis using len by blast
qed

lemma SPEAKER_RE_no_match:
  assumes "58 \<notin> set s \<or> length (takeWhile (\<lambda>c. c \<noteq> 58) s) < 2 \<or>
           \<not> list_all speaker_char (takeWhile (\<lambda>c. c \<noteq> 58) (dropWhile is_space s))"
  shows "SPEAKER_RE s = None"
proof -
  let ?w = "length (takeWhile is_space s)"
  have no: "\<not> speaker_head s k" if k: "k \<le> ?w" for k
  proof
    assume "speaker_head s k"
    then obtain run r where sh: "drop k s = run @ 58 # r" "list_all speaker_char run"
        "2 \<le> length run"
      using speaker_head_shape by blast
    have s: "s = take k s @ run @ 58 # r"
      using sh(1) by (metis append_take_drop_id)
    have "58 \<in> set s" by (subst s) simp
    have tk: "take k s = take k (takeWhile is_space s)"
      using k by (metis append_take_drop_id takeWhile_dropWhile_id take_append
                   diff_is_0_eq take_0 append_Nil2 take_take min.absorb1)
    have sp: "\<forall>c \<in> set (take k s). c \<noteq> 58"
      unfolding tk by (auto dest!: in_set_takeD set_takeWhileD is_space_not_colon)
    have rn: "\<forall>c \<in> set run. c \<noteq> 58"
      using sh(2) by (auto simp: list_all_iff dest: speaker_char_not_colon)
    have "takeWhile (\<lambda>c. c \<noteq> 58) ((take k s @ run) @ 58 # r) = take k s @ run"
      using sp rn by (intro takeWhile_stop) auto
    hence tw: "takeWhile (\<lambda>c. c \<noteq> 58) s = take k s @ run"
      using s by simp
    have "2 \<le> length (takeWhile (\<lambda>c. c \<noteq> 58) s)"
      unfolding tw using sh(3) by simp
    have wle: "?w \<le> length (takeWhile (\<lambda>c. c \<noteq> 58) s)"
      by (rule takeWhile_length_mono) (rule is_space_not_colon)
    have kl: "length (take k s) = k"
      using k length_takeWhile_le [of is_space s] by simp
    have "takeWhile (\<lambda>c. c \<noteq> 58) (dropWhile is_space s) =
          takeWhile (\<lambda>c. c \<noteq> 58) (drop ?w s)"
      by (simp add: dropWhile_eq_drop)
    also have "\<dots> = drop ?w (takeWhile (\<lambda>c. c \<noteq> 58) s)"
      using wle by (rule takeWhile_drop_within)
    also have "\<dots> = drop (?w - k) run"
      unfolding tw using k kl by simp
    finally have "list_all speaker_char (takeWhile (\<lambda>c. c \<noteq> 58) (dropWhile is_space s))"
      using sh(2) by (auto simp: list_all_iff dest: in_set_dropD)
    with assms \<open>58 \<in> set s\<close> \<open>2 \<le> length (takeWhile (\<lambda>c. c \<noteq> 58) s)\<close>
    show False by auto
  qed
  have "find (speaker_head s) (rev [0..<Suc ?w]) = None"
    by (rule find_rev_upt_None) (rule no)
  thus ?thesis by (simp add: SPEAKER_RE_def)
qed


text \<open>
  C5 (the claim as stated). With \<open>colon_only_if_uppercase\<close> unset, the line \<open>John: hi\<close>
  keeps its prefix, though the prefix is made of letters: the class of \<open>SPEAKER_RE\<close>
  holds capitals only. And \<open>MR. X: hi\<close> loses its prefix, though the full stop is not in
  the set the claim lists: the class holds it.
\<close>

theorem speaker_prefix_class_differs:
  "clean_line (cps ''John: hi'') (default_config\<lparr>colon_only_if_uppercase := False\<rparr>) =
     Some (cps ''John: hi'') \<and>
   strip_speaker (cps ''John: hi'') (default_config\<lparr>colon_only_if_uppercase := False\<rparr>) =
     cps ''John: hi'' \<and>
   strip_speaker (cps ''MR. X: hi'') default_config = cps ''hi'' \<and>
   clean_line (cps ''MR. X: hi'') default_config = Some (cps ''hi'')"
  by (simp add: text_defs regex_defs clean_defs config_defs)

text \<open>
  C5, amended. Under a configuration with \<open>remove_text_before_colon\<close> set, a line made of
  optional whitespace, a prefix of at least 2 characters of the class of \<open>SPEAKER_RE\<close>
  (\<open>A\<close>..\<open>Z\<close>, the seven accented capitals, digits, space, both quotes, ampersand,
  parentheses, full stop, hyphen), a colon, and at least one more character and no line
  feed behind the colon, is replaced by the text behind the colon without its leading
  whitespace (by its last character when only whitespace follows the colon), whatever
  \<open>colon_only_if_uppercase\<close> says. The rule leaves the line unchanged when
  \<open>remove_text_before_colon\<close> is unset, when the line has no colon or fewer than 2
  characters before its first colon, and, with \<open>colon_only_if_uppercase\<close> set, when a
  character outside the class stands between the leading whitespace and the first colon.
\<close>

theorem strip_speaker_rule:
  "(remove_text_before_colon cfg \<and> list_all is_space ws \<and> list_all speaker_char pre \<and>
    2 \<le> length pre \<and> after \<noteq> [] \<and> 10 \<notin> set after \<longrightarrow>
      strip_speaker (ws @ pre @ 58 # after) cfg =
        (if list_all is_space after then [last after] else dropWhile is_space after)) \<and>
   (\<not> remove_text_before_colon cfg \<or> 58 \<notin> set line \<or>
    length (takeWhile (\<lambda>c. c \<noteq> 58) line) < 2 \<or>
    (colon_only_if_uppercase cfg \<and>
     \<not> list_all speaker_char (takeWhile (\<lambda>c. c \<noteq> 58) (dropWhile is_space line))) \<longrightarrow>
      strip_speaker line cfg = line)"
proof (intro conjI impI)
  assume a: "remove_text_before_colon cfg \<and> list_all is_space ws \<and> list_all speaker_char pre \<and>
    2 \<le> length pre \<and> after \<noteq> [] \<and> 10 \<notin> set after"
  then obtain speaker where sp: "list_all speaker_char speaker"
     "SPEAKER_RE (ws @ pre @ 58 # after) =
        Some (speaker, if list_all is_space after then [last after]
                       else dropWhile is_space after)"
    using SPEAKER_RE_match [of ws pre after] by blast
  have "upper speaker = speaker" using sp(1) by (rule upper_speaker)
  thus "strip_speaker (ws @ pre @ 58 # after) cfg =
        (if list_all is_space after then [last after] else dropWhile is_space after)"
    using a by (simp add: strip_speaker_def sp(2))
next
  assume b: "\<not> remove_text_before_colon cfg \<or> 58 \<notin> set line \<or>
    length (takeWhile (\<lambda>c. c \<noteq> 58) line) < 2 \<or>
    (colon_only_if_uppercase cfg \<and>
     \<not> list_all speaker_char (takeWhile (\<lambda>c. c \<noteq> 58) (dropWhile is_space line)))"
  show "strip_speaker line cfg = line"
  proof (cases "remove_text_before_colon cfg")
    case False
    then show ?thesis by (simp add: strip_speaker_def)
  next
    case True
    with b have "SPEAKER_RE line = None"
      by (intro SPEAKER_RE_no_match) blast
    then show ?thesis by (simp add: strip_speaker_def)
  qed
qed

theorem strip_speaker_rule_witness:
  "remove_text_before_colon default_config \<and> list_all is_space (cps '' '') \<and>
   list_all speaker_char (cps ''JOHN'') \<and> 2 \<le> length (cps ''JOHN'') \<and>
   cps '' Get out!'' \<noteq> [] \<and> 10 \<notin> set (cps '' Get out!'') \<and>
   strip_speaker (cps '' JOHN: Get out!'') default_config = cps ''Get out!'' \<and>
   colon_only_if_uppercase default_config \<and>
   \<not> list_all speaker_char (takeWhile (\<lambda>c. c \<noteq> 58) (dropWhile is_space (cps ''John: hi''))) \<and>
   strip_speaker (cps ''John: hi'') default_config = cps ''John: hi''"
proof -
  have h1: "remove_text_before_colon default_config \<and> list_all is_space (cps '' '') \<and>
      list_all speaker_char (cps ''JOHN'') \<and> 2 \<le> length (cps ''JOHN'') \<and>
      cps '' Get out!'' \<noteq> [] \<and> 10 \<notin> set (cps '' Get out!'')"
    by (simp add: text_defs config_defs speaker_char_def)
  have h2: "colon_only_if_uppercase default_config \<and>
      \<not> list_all speaker_char (takeWhile (\<lambda>c. c \<noteq> 58) (dropWhile is_space (cps ''John: hi'')))"
    by (simp add: text_defs config_defs speaker_char_def)
  have e1: "cps '' '' @ cps ''JOHN'' @ 58 # cps '' Get out!'' = cps '' JOHN: Get out!''"
    by (simp add: cps_def)
  have e2: "(if list_all is_space (cps '' Get out!'') then [last (cps '' Get out!'')]
             else dropWhile is_space (cps '' Get out!'')) = cps ''Get out!''"
    by (simp add: text_defs)
  note inst = strip_speaker_rule
    [of default_config "cps '' ''" "cps ''JOHN''" "cps '' Get out!''" "cps ''John: hi''"]
  show ?thesis
    using h1 h2 inst unfolding e1 e2 by blast
qed

section \<open>Brackets and whitespace\<close>

subsection \<open>Bracket removal\<close>

lemma length_takeWhile_less:
  "length (takeWhile P xs) < length xs \<longleftrightarrow> (\<exists>x \<in> set xs. \<not> P x)"
  by (induction xs) auto

lemma delim_match_iff:
  "delim_match opn cls 0 (x # t) \<noteq> None \<longleftrightarrow> x = opn \<and> cls \<in> set t"
  by (auto simp: delim_match_def Let_def length_takeWhile_less)


lemma re_sub_subseq: "subseq (re_sub m [] s) s"
proof (induction m "[] :: ustr" s rule: re_sub.induct)
  case (1 m)
  show ?case by simp
next
  case (2 m c cs)
  show ?case
  proof (cases "m (c # cs)")
    case None
    with 2 show ?thesis by simp
  next
    case (Some n)
    have "subseq (re_sub m [] (drop (n - 1) cs)) (drop (n - 1) cs)"
      using 2(2) [OF Some] .
    moreover have "subseq (drop (n - 1) cs) (c # cs)"
      by (rule list_emb_Cons) (rule suffix_imp_subseq [OF suffix_drop])
    ultimately have "subseq (re_sub m [] (drop (n - 1) cs)) (c # cs)"
      by (rule subseq_order.order_trans)
    thus ?thesis using Some by simp
  qed
qed

text \<open>No opening character with a closing character somewhere behind it: the bracket
  pattern matches nowhere.\<close>

lemma re_sub_delim_none:
  "\<not> subseq [opn, cls] (re_sub (delim_match opn cls 0) [] s)"
proof (induction "delim_match opn cls 0" "[] :: ustr" s rule: re_sub.induct)
  case 1
  show ?case by simp
next
  case (2 c cs)
  show ?case
  proof (cases "delim_match opn cls 0 (c # cs)")
    case None
    hence nm: "\<not> (c = opn \<and> cls \<in> set cs)"
      using delim_match_iff [of opn cls c cs] by simp
    have "set (re_sub (delim_match opn cls 0) [] cs) \<subseteq> set cs"
      using re_sub_subseq [of "delim_match opn cls 0" cs] by (auto dest: list_emb_set)
    with nm 2(1) [OF None] None show ?thesis
      by (auto simp: subseq_singleton_left)
  next
    case (Some n)
    with 2(2) [OF Some] show ?thesis by simp
  qed
qed



subsection \<open>Whitespace\<close>

lemma spaces_sub_Cons:
  "re_sub SPACES_RE [32] (x # t) =
     (if is_space x then 32 # re_sub SPACES_RE [32] (dropWhile is_space t)
      else x # re_sub SPACES_RE [32] t)"
  by (simp add: SPACES_RE_def dropWhile_eq_drop)

lemma strip_parts:
  "\<exists>a b. s = a @ strip s @ b \<and> list_all is_space a \<and> list_all is_space b"
proof -
  let ?d = "dropWhile is_space s"
  have "strip s @ rev (takeWhile is_space (rev ?d)) =
        rev (takeWhile is_space (rev ?d) @ dropWhile is_space (rev ?d))"
    by (simp add: strip_def del: takeWhile_dropWhile_id)
  also have "\<dots> = rev (rev ?d)"
    by (simp only: takeWhile_dropWhile_id)
  finally have d: "?d = strip s @ rev (takeWhile is_space (rev ?d))"
    by simp
  have "s = takeWhile is_space s @ ?d" by simp
  hence "s = takeWhile is_space s @ strip s @ rev (takeWhile is_space (rev ?d))"
    using d by simp
  moreover have "list_all is_space (takeWhile is_space s)"
    by (auto simp: list_all_iff dest: set_takeWhileD)
  moreover have "list_all is_space (rev (takeWhile is_space (rev ?d)))"
    by (auto simp: list_all_iff dest: set_takeWhileD)
  ultimately show ?thesis by blast
qed




















section \<open>The override code alone\<close>

lemma strip_subseq: "subseq (strip s) s"
proof -
  obtain a b where ab: "s = a @ strip s @ b"
    using strip_parts by blast
  have "subseq (strip s) (a @ strip s @ b)"
    by (intro list_emb_prefix list_emb_append2) simp
  thus ?thesis using ab by simp
qed

text \<open>What \<open>_text_without_overrides\<close> returns holds no opening brace with a closing brace
  behind it, so neither does its trimmed form.\<close>

lemma text_without_overrides_no_code:
  "\<not> subseq [123, 125] (strip (text_without_overrides t))"
proof
  assume "subseq [123, 125] (strip (text_without_overrides t))"
  moreover have "subseq (strip (text_without_overrides t)) (text_without_overrides t)"
    by (rule strip_subseq)
  ultimately have "subseq [123, 125] (text_without_overrides t)"
    by (rule subseq_order.order_trans)
  thus False
    using re_sub_delim_none [of 123 125 t]
    by (simp add: text_without_overrides_def ASS_OVERRIDE_RE_def)
qed

text \<open>
  C4 (the claim as stated). The classifier rejects the line \<open>{\an8}\<close>, and an entry whose
  only text line is \<open>{\an8}\<close> is dropped by \<open>full_to_forced_blocks\<close>.
\<close>

theorem an8_entry_dropped:
  "\<not> is_all_caps_cue latin1_db an8 \<and>
   full_to_forced_blocks latin1_db
     [\<lparr>index = cps ''1'', timing = cps ''00:00:01,000 --> 00:00:02,000'',
       texts = [an8]\<rparr>] None = []"
  by (simp add: text_defs regex_defs forced_defs)

text \<open>
  C4, amended. The second alternative of \<open>FORCED_RE\<close> spans the line \<open>{\an8}\<close>, but the
  classifier rejects it: it asks for two letters, all of them capitals, and the letters
  \<open>a\<close> and \<open>n\<close> are not. No line has \<open>{\an8}\<close> as its trimmed form without override
  codes, since \<open>_text_without_overrides\<close> deletes every code in braces; it turns the line
  \<open>{\an8}\<close> into the empty string, which the classifier rejects, so an entry all of whose
  text lines are \<open>{\an8}\<close> is dropped by \<open>full_to_forced_blocks\<close>. With capitals behind
  the code, as in \<open>{\an8}HELLO THERE\<close>, the line without its code is a forced cue and the
  entry is retained as it is, code included.
\<close>

theorem an8_alone_not_forced:
  "FORCED_RE_fullmatch db an8 \<and>
   \<not> is_all_caps_cue latin1_db an8 \<and>
   strip (text_without_overrides t) \<noteq> an8 \<and>
   text_without_overrides an8 = [] \<and>
   \<not> is_all_caps_cue db [] \<and>
   full_to_forced_blocks db
     [\<lparr>index = idx, timing = tm, texts = replicate (Suc n) an8\<rparr>] None = [] \<and>
   is_all_caps_cue latin1_db (text_without_overrides (an8 @ cps ''HELLO THERE'')) \<and>
   full_to_forced_blocks latin1_db
     [\<lparr>index = idx, timing = tm, texts = [an8 @ cps ''HELLO THERE'']\<rparr>] None =
     [\<lparr>index = idx, timing = tm, texts = [an8 @ cps ''HELLO THERE'']\<rparr>]"
proof -
  have b: "FORCED_RE_fullmatch db an8"
    by (simp add: FORCED_RE_fullmatch_def)
  have c: "\<not> is_all_caps_cue latin1_db an8"
    by (simp add: text_defs forced_defs)
  have d: "strip (text_without_overrides t) \<noteq> an8"
  proof
    assume e: "strip (text_without_overrides t) = an8"
    have "subseq [123, 125] an8"
      by (simp add: an8_def)
    with text_without_overrides_no_code [of t] e show False by simp
  qed
  have e: "text_without_overrides an8 = []"
    by (simp add: text_defs regex_defs forced_defs)
  have f: "\<not> is_all_caps_cue db []"
    by (simp add: is_all_caps_cue_def strip_def)
  have g: "full_to_forced_blocks db
     [\<lparr>index = idx, timing = tm, texts = replicate (Suc n) an8\<rparr>] None = []"
    using e f by (simp add: checker_of_def)
  have h: "is_all_caps_cue latin1_db (text_without_overrides (an8 @ cps ''HELLO THERE''))"
    by (simp add: text_defs regex_defs forced_defs)
  have i: "full_to_forced_blocks latin1_db
     [\<lparr>index = idx, timing = tm, texts = [an8 @ cps ''HELLO THERE'']\<rparr>] None =
     [\<lparr>index = idx, timing = tm, texts = [an8 @ cps ''HELLO THERE'']\<rparr>]"
    using h by (simp add: checker_of_def)
  show ?thesis
    using b c d e f g h i by blast
qed

section \<open>Idempotence on lines without markup\<close>

subsection \<open>Lines without markup\<close>


lemma BR_TAG_RE_start: "c \<noteq> 60 \<Longrightarrow> BR_TAG_RE (c # t) = None"
  by (auto simp: BR_TAG_RE_def Let_def split: list.splits)

lemma delim_match_start: "c \<noteq> opn \<Longrightarrow> delim_match opn cls k (c # t) = None"
  by (simp add: delim_match_def Let_def)

lemma ASS_NEWLINE_RE_start: "c \<noteq> 92 \<Longrightarrow> ASS_NEWLINE_RE (c # t) = None"
  by (auto simp: ASS_NEWLINE_RE_def split: list.splits)
















section \<open>Placeholders\<close>

lemma str_nat_digits: "c \<in> set (str_nat n) \<Longrightarrow> 48 \<le> c \<and> c \<le> 57"
proof (induction n arbitrary: c rule: str_nat.induct)
  case (1 n)
  show ?case
  proof (cases "n < 10")
    case True
    with "1.prems" show ?thesis by (subst (asm) str_nat.simps) auto
  next
    case False
    with "1.prems" have "c \<in> set (str_nat (n div 10)) \<or> c = 48 + n mod 10"
      by (subst (asm) str_nat.simps) auto
    with "1.IH" [OF False] show ?thesis by auto
  qed
qed

lemma str_nat_nonempty: "str_nat n \<noteq> []"
  by (subst str_nat.simps) simp

lemma str_nat_inj: "str_nat m = str_nat n \<Longrightarrow> m = n"
proof (induction m arbitrary: n rule: str_nat.induct)
  case (1 m)
  show ?case
  proof (cases "m < 10")
    case m: True
    show ?thesis
    proof (cases "n < 10")
      case True
      with m "1.prems" show ?thesis
        by (subst (asm) str_nat.simps, subst (asm) (2) str_nat.simps) simp
    next
      case False
      have "length (str_nat n) \<ge> 2"
        using False str_nat_nonempty [of "n div 10"]
        by (subst str_nat.simps) (cases "str_nat (n div 10)", auto)
      moreover have "length (str_nat m) = 1"
        using m by (subst str_nat.simps) simp
      ultimately show ?thesis using "1.prems" by simp
    qed
  next
    case m: False
    show ?thesis
    proof (cases "n < 10")
      case True
      have "length (str_nat m) \<ge> 2"
        using m str_nat_nonempty [of "m div 10"]
        by (subst str_nat.simps) (cases "str_nat (m div 10)", auto)
      moreover have "length (str_nat n) = 1"
        using True by (subst str_nat.simps) simp
      ultimately show ?thesis using "1.prems" by simp
    next
      case False
      have em: "str_nat m = str_nat (m div 10) @ [48 + m mod 10]"
        using m by (subst str_nat.simps) simp
      have en: "str_nat n = str_nat (n div 10) @ [48 + n mod 10]"
        using False by (subst str_nat.simps) simp
      from "1.prems" em en have "str_nat (m div 10) = str_nat (n div 10)" "m mod 10 = n mod 10"
        by simp_all
      with "1.IH" [OF m] have "m div 10 = n div 10" "m mod 10 = n mod 10" by simp_all
      thus ?thesis by (metis div_mult_mod_eq)
    qed
  qed
qed

lemma tag_token_eq: "tag_token k = 95 # 95 # 84 # 65 # 71 # 95 # str_nat k @ [95, 95]"
  by (simp add: tag_token_def cps_def)

lemma flat_append: "flat (a @ b) = flat a @ flat b"
  by (induction a rule: flat.induct) auto

lemma flat_map_Ch: "flat (map Ch u) = u"
  by (induction u) auto

lemma flat_starts_underscore:
  "clean_items r \<Longrightarrow> flat r = 95 # x \<Longrightarrow> \<exists>j r'. r = Tok j # r'"
  by (cases r rule: flat.cases) auto

section \<open>Restoring\<close>

lemma replace_step:
  "\<not> prefix old (c # cs) \<Longrightarrow> replace old new (c # cs) = c # replace old new cs"
  by simp

lemma replace_hit:
  "old \<noteq> [] \<Longrightarrow> replace old new (old @ w) = new @ replace old new w"
  by (cases old) simp_all

lemma replace_skip_chars:
  assumes "old \<noteq> []" "\<forall>c \<in> set u. c \<noteq> hd old"
  shows "replace old new (u @ w) = u @ replace old new w"
  using assms(2)
proof (induction u)
  case Nil
  show ?case by simp
next
  case (Cons c u)
  hence "\<not> prefix old (c # u @ w)"
    using assms(1) by (cases old) auto
  with Cons show ?case by simp
qed

text \<open>Behind a placeholder of another index, the placeholder looked for does not start
  before the placeholder ends.\<close>

lemma digits_prefix:
  assumes "\<forall>c \<in> set a. c \<noteq> 95" "\<forall>c \<in> set b. c \<noteq> 95" "prefix (a @ [95, 95]) (b @ 95 # 95 # w)"
  shows "a = b"
  using assms
proof (induction a arbitrary: b)
  case Nil
  then show ?case by (cases b) auto
next
  case (Cons x a)
  then show ?case by (cases b) auto
qed

lemma tag_token_prefix:
  "prefix (tag_token k) (tag_token j @ w) \<Longrightarrow> k = j"
proof -
  assume "prefix (tag_token k) (tag_token j @ w)"
  hence "prefix (str_nat k @ [95, 95]) (str_nat j @ 95 # 95 # w)"
    by (simp add: tag_token_eq)
  hence "str_nat k = str_nat j"
    using str_nat_digits [of _ k] str_nat_digits [of _ j]
    by (intro digits_prefix [of "str_nat k" "str_nat j" w]) fastforce+
  thus ?thesis by (rule str_nat_inj)
qed

lemma replace_over_token:
  assumes "j \<noteq> k" "clean_items r"
  shows "replace (tag_token k) new (tag_token j @ flat r) =
         tag_token j @ replace (tag_token k) new (flat r)"
proof -
  let ?old = "tag_token k"
  let ?w = "flat r"
  obtain d ds where d: "str_nat j = d # ds"
    using str_nat_nonempty [of j] by (cases "str_nat j") auto
  have dig: "\<forall>c \<in> set (d # ds). c \<noteq> 95"
    using str_nat_digits [of _ j] unfolding d by fastforce
  obtain e es where e: "str_nat k = e # es"
    using str_nat_nonempty [of k] by (cases "str_nat k") auto
  have e95: "e \<noteq> 95"
    using str_nat_digits [of e k] unfolding e by fastforce
  have old: "?old = 95 # 95 # 84 # 65 # 71 # 95 # e # es @ [95, 95]"
    by (simp add: tag_token_eq e)
  have hd_old: "hd ?old = 95" "?old \<noteq> []" by (simp_all add: old)
  have s0: "\<not> prefix ?old (tag_token j @ ?w)"
    using assms(1) tag_token_prefix by blast
  have tail2: "replace ?old new (95 # ?w) = 95 # replace ?old new ?w"
  proof (rule replace_step)
    show "\<not> prefix ?old (95 # ?w)"
    proof
      assume "prefix ?old (95 # ?w)"
      then obtain x where x: "?w = 95 # 84 # x"
        by (auto simp: old prefix_def)
      then obtain j' r' where "r = Tok j' # r'"
        using flat_starts_underscore [OF assms(2)] by blast
      with x show False by (simp add: tag_token_eq)
    qed
  qed
  have tail1: "replace ?old new (95 # 95 # ?w) = 95 # replace ?old new (95 # ?w)"
  proof (rule replace_step)
    show "\<not> prefix ?old (95 # 95 # ?w)"
    proof
      assume "prefix ?old (95 # 95 # ?w)"
      then obtain x where x: "?w = 84 # 65 # 71 # 95 # e # x"
        by (auto simp: old prefix_def)
      then obtain c1 r1 where r1: "r = Ch c1 # r1"
        using assms(2) by (cases r rule: flat.cases) (auto simp: tag_token_eq)
      with x assms(2) obtain c2 r2 where r2: "r1 = Ch c2 # r2"
        by (cases r1 rule: flat.cases) (auto simp: tag_token_eq)
      with x r1 assms(2) obtain c3 r3 where r3: "r2 = Ch c3 # r3"
        by (cases r2 rule: flat.cases) (auto simp: tag_token_eq)
      with x r1 r2 assms(2) have "clean_items r3" "flat r3 = 95 # e # x"
        by auto
      then obtain j' r' where "r3 = Tok j' # r'"
        using flat_starts_underscore by blast
      with \<open>flat r3 = 95 # e # x\<close> e95 show False by (simp add: tag_token_eq)
    qed
  qed
  have digs: "replace ?old new ((d # ds) @ 95 # 95 # ?w) = (d # ds) @ replace ?old new (95 # 95 # ?w)"
    using dig hd_old by (intro replace_skip_chars) auto
  have "replace ?old new (tag_token j @ ?w) =
        95 # replace ?old new (95 # 84 # 65 # 71 # 95 # (d # ds) @ 95 # 95 # ?w)"
    using s0 by (simp add: tag_token_eq d)
  also have "replace ?old new (95 # 84 # 65 # 71 # 95 # (d # ds) @ 95 # 95 # ?w) =
        95 # 84 # 65 # 71 # 95 # replace ?old new ((d # ds) @ 95 # 95 # ?w)"
    using dig by (simp add: old)
  finally show ?thesis
    unfolding digs tail1 tail2 by (simp add: tag_token_eq d)
qed

lemma clean_items_append: "clean_items (a @ b) \<longleftrightarrow> clean_items a \<and> clean_items b"
  by (induction a rule: clean_items.induct) auto

lemma clean_items_map_Ch: "clean_items (map Ch u) \<longleftrightarrow> 95 \<notin> set u"
  by (induction u) auto

lemma subst_range_append:
  "subst_range idx ps (a @ b) = subst_range idx ps a @ subst_range idx ps b"
  by (induction a rule: flat.induct) auto

lemma subst_range_map_Ch: "subst_range idx ps (map Ch u) = map Ch u"
  by (induction u) auto

lemma subst_range_Nil: "subst_range idx [] items = items"
  by (induction items rule: flat.induct) auto

lemma replace_flat:
  "clean_items items \<Longrightarrow>
   replace (tag_token k) new (flat items) = flat (subst_range k [new] items)"
proof (induction items rule: flat.induct)
  case 1
  show ?case by simp
next
  case (2 c r)
  hence "\<not> prefix (tag_token k) (c # flat r)"
    by (simp add: tag_token_eq)
  with 2 show ?case by simp
next
  case (3 j r)
  hence cr: "clean_items r" by simp
  show ?case
  proof (cases "j = k")
    case True
    have "tag_token k \<noteq> []" by (simp add: tag_token_eq)
    hence "replace (tag_token k) new (tag_token k @ flat r) =
           new @ replace (tag_token k) new (flat r)"
      by (rule replace_hit)
    with True 3 show ?thesis by (simp add: flat_append flat_map_Ch)
  next
    case False
    hence "\<not> (k \<le> j \<and> j < Suc k)" by linarith
    with 3 replace_over_token [OF False cr, of new] show ?thesis by auto
  qed
qed

lemma clean_subst_range:
  "clean_items items \<Longrightarrow> \<forall>p \<in> set ps. 95 \<notin> set p \<Longrightarrow> clean_items (subst_range idx ps items)"
  by (induction items rule: flat.induct) (auto simp: clean_items_append clean_items_map_Ch)

lemma subst_range_step:
  "subst_range (Suc idx) rest (subst_range idx [orig] items) = subst_range idx (orig # rest) items"
proof (induction items rule: flat.induct)
  case 1
  show ?case by simp
next
  case (2 c r)
  then show ?case by simp
next
  case (3 k r)
  consider "k = idx" | "idx < k" "k < Suc idx + length rest" | "k < idx" | "Suc idx + length rest \<le> k"
    by linarith
  then show ?case
  proof cases
    case 1
    with 3 show ?thesis by (simp add: subst_range_append subst_range_map_Ch)
  next
    case 2
    hence "k - idx = Suc (k - Suc idx)" by linarith
    hence "(orig # rest) ! (k - idx) = rest ! (k - Suc idx)"
      by simp
    with 2 3 show ?thesis by simp
  next
    case 3
    with "3.IH" show ?thesis by simp
  next
    case 4
    with "3.IH" show ?thesis by simp
  qed
qed

lemma restore_flat:
  "clean_items items \<Longrightarrow> \<forall>p \<in> set ps. 95 \<notin> set p \<Longrightarrow>
   restore idx ps (flat items) = flat (subst_range idx ps items)"
proof (induction ps arbitrary: idx items)
  case Nil
  show ?case by (simp add: subst_range_Nil)
next
  case (Cons orig rest)
  have c: "clean_items (subst_range idx [orig] items)"
    using Cons.prems by (intro clean_subst_range) auto
  have "restore idx (orig # rest) (flat items) =
        restore (Suc idx) rest (flat (subst_range idx [orig] items))"
    using Cons.prems(1) by (simp add: replace_flat)
  also have "\<dots> = flat (subst_range (Suc idx) rest (subst_range idx [orig] items))"
    using c Cons.prems(2) by (intro Cons.IH) auto
  finally show ?case by (simp add: subst_range_step)
qed

lemma subst_range_all:
  "\<forall>k \<in> set (toks items). k < length ps \<Longrightarrow> flat (subst_range 0 ps items) = expand ps items"
  by (induction items rule: flat.induct) (auto simp: flat_append flat_map_Ch)

lemma restore_expand:
  assumes "clean_items items" "\<forall>p \<in> set ps. 95 \<notin> set p" "\<forall>k \<in> set (toks items). k < length ps"
  shows "restore 0 ps (flat items) = expand ps items"
  using assms by (simp add: restore_flat subst_range_all)

section \<open>Shielding\<close>

lemma expand_append: "expand ps (a @ b) = expand ps a @ expand ps b"
  by (induction a rule: flat.induct) auto

lemma expand_map_Ch: "expand ps (map Ch u) = u"
  by (induction u) auto

lemma toks_append: "toks (a @ b) = toks a @ toks b"
  by (induction a rule: flat.induct) auto

lemma toks_map_Ch: "toks (map Ch u) = []"
  by (induction u) auto

lemma expand_extend:
  "\<forall>k \<in> set (toks r). k < length ps \<Longrightarrow> expand (ps @ ext) r = expand ps r"
  by (induction r rule: flat.induct) (auto simp: nth_append)

lemma tag_token_chars: "c \<in> set (tag_token j) \<Longrightarrow> c \<noteq> 60 \<and> c \<noteq> 123 \<and> c \<noteq> 92"
  using str_nat_digits [of c j] by (auto simp: tag_token_eq)

lemma flat_take_clean:
  "95 \<notin> set (take n (flat items)) \<Longrightarrow>
   \<exists>r'. items = map Ch (take n (flat items)) @ r' \<and> flat r' = drop n (flat items)"
proof (induction items arbitrary: n rule: flat.induct)
  case 1
  show ?case by simp
next
  case (2 c r)
  show ?case
  proof (cases n)
    case 0
    then show ?thesis by simp
  next
    case (Suc n')
    with "2.prems" have "95 \<notin> set (take n' (flat r))" by simp
    from "2.IH" [OF this] Suc show ?thesis by auto
  qed
next
  case (3 k r)
  show ?case
  proof (cases n)
    case 0
    then show ?thesis by simp
  next
    case (Suc n')
    with "3.prems" show ?thesis by (simp add: tag_token_eq)
  qed
qed

lemma sub_store_snd: "\<exists>N. snd (sub_store m (s, P)) = P @ N"
proof (induction s arbitrary: P rule: length_induct)
  case (1 s)
  show ?case
  proof (cases s)
    case Nil
    then show ?thesis by simp
  next
    case (Cons c cs)
    show ?thesis
    proof (cases "m (c # cs)")
      case None
      have "\<exists>N. snd (sub_store m (cs, P)) = P @ N"
        using 1 Cons by simp
      with None Cons show ?thesis by (simp add: Let_def)
    next
      case (Some n)
      have "length (drop (n - 1) cs) < length s" using Cons by simp
      hence "\<exists>N. snd (sub_store m (drop (n - 1) cs, P @ [take n (c # cs)])) =
                 (P @ [take n (c # cs)]) @ N"
        using 1 by blast
      with Some Cons show ?thesis by (auto simp: Let_def)
    qed
  qed
qed

lemma sub_store_skip:
  assumes trig: "\<And>c t n. m (c # t) = Some n \<Longrightarrow> 1 \<le> n \<and> (c = 60 \<or> c = 123 \<or> c = 92)"
      and u: "\<forall>c \<in> set u. c \<noteq> 60 \<and> c \<noteq> 123 \<and> c \<noteq> 92"
  shows "sub_store m (u @ w, P) = (u @ fst (sub_store m (w, P)), snd (sub_store m (w, P)))"
  using u
proof (induction u)
  case Nil
  show ?case by simp
next
  case (Cons c u)
  have "m (c # u @ w) = None"
  proof (cases "m (c # u @ w)")
    case None
    then show ?thesis .
  next
    case (Some n)
    from trig [OF this] Cons.prems show ?thesis by simp
  qed
  with Cons show ?case by (simp add: Let_def)
qed

text \<open>One shielding pass on a line of items, when no span it records holds an
  underscore: each match lies in the plain text between the placeholders, and is
  replaced by one new placeholder.\<close>

lemma sub_store_items:
  assumes trig: "\<And>c t n. m (c # t) = Some n \<Longrightarrow> 1 \<le> n \<and> (c = 60 \<or> c = 123 \<or> c = 92)"
  shows "clean_items items \<Longrightarrow> \<forall>k \<in> set (toks items). k < length P \<Longrightarrow>
         distinct (toks items) \<Longrightarrow>
         \<forall>p \<in> set (snd (sub_store m (flat items, P))). 95 \<notin> set p \<Longrightarrow>
         \<exists>items' N. sub_store m (flat items, P) = (flat items', P @ N) \<and>
            clean_items items' \<and> expand (P @ N) items' = expand P items \<and>
            distinct (toks items') \<and>
            set (toks items') = set (toks items) \<union> {length P..<length P + length N}"
proof (induction "length items" arbitrary: items P rule: less_induct)
  case less
  show ?case
  proof (cases items rule: flat.cases)
    case 1
    then show ?thesis by (intro exI [of _ "[]"]) simp
  next
    case (3 j r)
    let ?res = "sub_store m (flat r, P)"
    have tc: "\<forall>c \<in> set (tag_token j). c \<noteq> 60 \<and> c \<noteq> 123 \<and> c \<noteq> 92"
      using tag_token_chars by blast
    have skip: "sub_store m (flat items, P) = (tag_token j @ fst ?res, snd ?res)"
      unfolding 3 flat.simps by (rule sub_store_skip [OF trig tc])
    have "\<exists>items' N. ?res = (flat items', P @ N) \<and>
            clean_items items' \<and> expand (P @ N) items' = expand P r \<and>
            distinct (toks items') \<and>
            set (toks items') = set (toks r) \<union> {length P..<length P + length N}"
      using less.prems 3 skip by (intro less.hyps) auto
    then obtain items' N where r: "?res = (flat items', P @ N)"
        "clean_items items'" "expand (P @ N) items' = expand P r"
        "distinct (toks items')"
        "set (toks items') = set (toks r) \<union> {length P..<length P + length N}"
      by blast
    have jP: "j < length P" "j \<notin> set (toks r)" using less.prems 3 by auto
    have "sub_store m (flat items, P) = (flat (Tok j # items'), P @ N)"
      using skip r(1) by simp
    moreover have "clean_items (Tok j # items')" using r(2) by simp
    moreover have "expand (P @ N) (Tok j # items') = expand P items"
      using r(3) jP(1) by (simp add: 3 nth_append)
    moreover have "distinct (toks (Tok j # items'))"
      using r(4,5) jP by auto
    moreover have "set (toks (Tok j # items')) =
                   set (toks items) \<union> {length P..<length P + length N}"
      using r(5) by (auto simp: 3)
    ultimately show ?thesis by blast
  next
    case (2 c r)
    show ?thesis
    proof (cases "m (c # flat r)")
      case None
      let ?res = "sub_store m (flat r, P)"
      have step: "sub_store m (flat items, P) = (c # fst ?res, snd ?res)"
        using None by (simp add: 2 Let_def)
      have "\<exists>items' N. ?res = (flat items', P @ N) \<and>
            clean_items items' \<and> expand (P @ N) items' = expand P r \<and>
            distinct (toks items') \<and>
            set (toks items') = set (toks r) \<union> {length P..<length P + length N}"
        using less.prems 2 step by (intro less.hyps) auto
      then obtain items' N where r: "?res = (flat items', P @ N)"
          "clean_items items'" "expand (P @ N) items' = expand P r"
          "distinct (toks items')"
          "set (toks items') = set (toks r) \<union> {length P..<length P + length N}"
        by blast
      have "sub_store m (flat items, P) = (flat (Ch c # items'), P @ N)"
        using step r(1) by simp
      moreover have "clean_items (Ch c # items')" using r(2) less.prems(1) 2 by simp
      moreover have "expand (P @ N) (Ch c # items') = expand P items"
        using r(3) by (simp add: 2)
      moreover have "distinct (toks (Ch c # items'))" using r(4) by simp
      moreover have "set (toks (Ch c # items')) =
                     set (toks items) \<union> {length P..<length P + length N}"
        using r(5) by (simp add: 2)
      ultimately show ?thesis by blast
    next
      case (Some n)
      hence n1: "1 \<le> n" using trig by blast
      define mt where "mt = take n (flat items)"
      let ?res = "sub_store m (drop n (flat items), P @ [mt])"
      have dr: "drop (n - 1) (flat r) = drop n (flat items)"
        using n1 by (cases n) (simp_all add: 2)
      have step: "sub_store m (flat items, P) = (tag_token (length P) @ fst ?res, snd ?res)"
        using Some dr by (simp add: 2 Let_def mt_def)
      obtain N0 where N0: "snd ?res = (P @ [mt]) @ N0"
        using sub_store_snd by blast
      have "mt \<in> set (snd (sub_store m (flat items, P)))"
        using step N0 by simp
      hence "95 \<notin> set mt" using less.prems(4) by blast
      then obtain r' where r': "items = map Ch mt @ r'" "flat r' = drop n (flat items)"
        unfolding mt_def using flat_take_clean by blast
      have mt_ne: "mt \<noteq> []" using n1 by (cases n) (simp_all add: 2 mt_def)
      have len: "length r' < length items"
        using mt_ne by (subst r'(1)) simp
      have tr: "toks r' = toks items"
        by (subst r'(1)) (simp add: toks_append toks_map_Ch)
      have "\<exists>items' N. sub_store m (flat r', P @ [mt]) = (flat items', (P @ [mt]) @ N) \<and>
            clean_items items' \<and> expand ((P @ [mt]) @ N) items' = expand (P @ [mt]) r' \<and>
            distinct (toks items') \<and>
            set (toks items') =
              set (toks r') \<union> {length (P @ [mt])..<length (P @ [mt]) + length N}"
      proof (rule less.hyps [OF len])
        show "clean_items r'"
          using less.prems(1) by (subst (asm) r'(1)) (simp add: clean_items_append)
        show "\<forall>k \<in> set (toks r'). k < length (P @ [mt])"
          using less.prems(2) tr by auto
        show "distinct (toks r')" using less.prems(3) tr by simp
        show "\<forall>p \<in> set (snd (sub_store m (flat r', P @ [mt]))). 95 \<notin> set p"
          using less.prems(4) step by (simp add: r'(2))
      qed
      then obtain items' N where r: "?res = (flat items', (P @ [mt]) @ N)"
          "clean_items items'"
          "expand ((P @ [mt]) @ N) items' = expand (P @ [mt]) r'"
          "distinct (toks items')"
          "set (toks items') =
             set (toks r') \<union> {length (P @ [mt])..<length (P @ [mt]) + length N}"
        unfolding r'(2) by blast
      let ?it = "Tok (length P) # items'"
      have old: "\<forall>k \<in> set (toks r'). k < length P"
        using less.prems(2) tr by simp
      have "sub_store m (flat items, P) = (flat ?it, P @ (mt # N))"
        using step r(1) by simp
      moreover have "clean_items ?it" using r(2) by simp
      moreover have "expand (P @ (mt # N)) ?it = expand P items"
      proof -
        have "expand (P @ [mt]) r' = expand P r'"
          using old by (rule expand_extend)
        hence "expand (P @ (mt # N)) ?it = mt @ expand P r'"
          using r(3) by (simp add: nth_append)
        also have "\<dots> = expand P (map Ch mt @ r')"
          by (simp add: expand_append expand_map_Ch)
        finally show ?thesis using r'(1) by simp
      qed
      moreover have "distinct (toks ?it)"
        using r(4,5) old by auto
      moreover have "set (toks ?it) =
                     set (toks items) \<union> {length P..<length P + length (mt # N)}"
        using r(5) tr by auto
      ultimately show ?thesis by blast
    qed
  qed
qed

lemma BR_TAG_RE_trigger:
  "BR_TAG_RE (c # t) = Some n \<Longrightarrow> 1 \<le> n \<and> (c = 60 \<or> c = 123 \<or> c = 92)"
  by (auto simp: BR_TAG_RE_def Let_def split: list.splits if_splits)

lemma delim_match_trigger:
  "delim_match opn cls k (c # t) = Some n \<Longrightarrow> 1 \<le> n \<and> c = opn"
  by (auto simp: delim_match_def Let_def split: if_splits)

lemma HTML_TAG_RE_trigger:
  "HTML_TAG_RE (c # t) = Some n \<Longrightarrow> 1 \<le> n \<and> (c = 60 \<or> c = 123 \<or> c = 92)"
  unfolding HTML_TAG_RE_def by (drule delim_match_trigger) simp

lemma ASS_OVERRIDE_RE_trigger:
  "ASS_OVERRIDE_RE (c # t) = Some n \<Longrightarrow> 1 \<le> n \<and> (c = 60 \<or> c = 123 \<or> c = 92)"
  unfolding ASS_OVERRIDE_RE_def by (drule delim_match_trigger) simp

lemma ASS_NEWLINE_RE_trigger:
  "ASS_NEWLINE_RE (c # t) = Some n \<Longrightarrow> 1 \<le> n \<and> (c = 60 \<or> c = 123 \<or> c = 92)"
  by (auto simp: ASS_NEWLINE_RE_def split: list.splits if_splits)

lemma sub_store_keeps: "set (snd st) \<subseteq> set (snd (sub_store m st))"
  using sub_store_snd [of m "fst st" "snd st"] by auto

text \<open>The four passes on a line without underscore, when no span they record holds an
  underscore: the shielded line is a sequence of plain characters and of placeholders,
  one for each recorded span, and putting the spans in their place gives the line back.\<close>

lemma shield_items:
  assumes line: "95 \<notin> set line" and spans: "\<forall>p \<in> set (snd (shield line)). 95 \<notin> set p"
  shows "\<exists>items. shield line = (flat items, snd (shield line)) \<and> clean_items items \<and>
           expand (snd (shield line)) items = line \<and> distinct (toks items) \<and>
           set (toks items) = {0..<length (snd (shield line))}"
proof -
  let ?r1 = "sub_store BR_TAG_RE (line, [])"
  let ?r2 = "sub_store HTML_TAG_RE ?r1"
  let ?r3 = "sub_store ASS_OVERRIDE_RE ?r2"
  let ?r4 = "sub_store ASS_NEWLINE_RE ?r3"
  have sh: "shield line = ?r4" by (simp add: shield_def)
  have s4: "\<forall>p \<in> set (snd ?r4). 95 \<notin> set p" using spans sh by simp
  have s3: "\<forall>p \<in> set (snd ?r3). 95 \<notin> set p"
    using s4 sub_store_keeps [of ?r3 ASS_NEWLINE_RE] by blast
  have s2: "\<forall>p \<in> set (snd ?r2). 95 \<notin> set p"
    using s3 sub_store_keeps [of ?r2 ASS_OVERRIDE_RE] by blast
  have s1: "\<forall>p \<in> set (snd ?r1). 95 \<notin> set p"
    using s2 sub_store_keeps [of ?r1 HTML_TAG_RE] by blast
  have "\<exists>items' N. sub_store BR_TAG_RE (flat (map Ch line), []) = (flat items', [] @ N) \<and>
            clean_items items' \<and> expand ([] @ N) items' = expand [] (map Ch line) \<and>
            distinct (toks items') \<and>
            set (toks items') = set (toks (map Ch line)) \<union> {length ([] :: ustr list)..<length ([] :: ustr list) + length N}"
    using line s1
    by (intro sub_store_items BR_TAG_RE_trigger)
       (simp_all add: clean_items_map_Ch toks_map_Ch flat_map_Ch)
  then obtain i1 P1 where 1: "?r1 = (flat i1, P1)" "clean_items i1" "expand P1 i1 = line"
      "distinct (toks i1)" "set (toks i1) = {0..<length P1}"
    by (auto simp: flat_map_Ch toks_map_Ch expand_map_Ch)
  have "\<exists>items' N. sub_store HTML_TAG_RE (flat i1, P1) = (flat items', P1 @ N) \<and>
            clean_items items' \<and> expand (P1 @ N) items' = expand P1 i1 \<and>
            distinct (toks items') \<and>
            set (toks items') = set (toks i1) \<union> {length P1..<length P1 + length N}"
    using 1 s2 by (intro sub_store_items HTML_TAG_RE_trigger) simp_all
  then obtain i2 P2 where 2: "?r2 = (flat i2, P2)" "clean_items i2" "expand P2 i2 = line"
      "distinct (toks i2)" "set (toks i2) = {0..<length P2}"
    using 1 by (auto simp: ivl_disj_un_two)
  have "\<exists>items' N. sub_store ASS_OVERRIDE_RE (flat i2, P2) = (flat items', P2 @ N) \<and>
            clean_items items' \<and> expand (P2 @ N) items' = expand P2 i2 \<and>
            distinct (toks items') \<and>
            set (toks items') = set (toks i2) \<union> {length P2..<length P2 + length N}"
    using 2 s3 by (intro sub_store_items ASS_OVERRIDE_RE_trigger) simp_all
  then obtain i3 P3 where 3: "?r3 = (flat i3, P3)" "clean_items i3" "expand P3 i3 = line"
      "distinct (toks i3)" "set (toks i3) = {0..<length P3}"
    using 2 by (auto simp: ivl_disj_un_two)
  have "\<exists>items' N. sub_store ASS_NEWLINE_RE (flat i3, P3) = (flat items', P3 @ N) \<and>
            clean_items items' \<and> expand (P3 @ N) items' = expand P3 i3 \<and>
            distinct (toks items') \<and>
            set (toks items') = set (toks i3) \<union> {length P3..<length P3 + length N}"
    using 3 s4 by (intro sub_store_items ASS_NEWLINE_RE_trigger) simp_all
  then obtain i4 P4 where 4: "?r4 = (flat i4, P4)" "clean_items i4" "expand P4 i4 = line"
      "distinct (toks i4)" "set (toks i4) = {0..<length P4}"
    using 3 by (auto simp: ivl_disj_un_two)
  show ?thesis
    unfolding sh using 4 by (intro exI [of _ i4]) simp
qed

section \<open>The rules on a shielded line\<close>

lemma flat_prefix_clean:
  assumes "flat items = a @ rest" "95 \<notin> set a"
  shows "\<exists>r'. items = map Ch a @ r' \<and> flat r' = rest"
proof -
  have "95 \<notin> set (take (length a) (flat items))" using assms by simp
  from flat_take_clean [OF this] assms(1) show ?thesis by simp
qed

lemma flat_snoc_clean:
  assumes "flat r = u @ [c]" "c \<noteq> 95"
  shows "\<exists>r'. r = r' @ [Ch c] \<and> flat r' = u"
proof (cases r rule: rev_cases)
  case Nil
  with assms show ?thesis by simp
next
  case (snoc r0 it)
  show ?thesis
  proof (cases it)
    case (Ch c')
    with snoc assms show ?thesis by (simp add: flat_append)
  next
    case (Tok k)
    hence "flat r = (flat r0 @ butlast (tag_token k)) @ [95]"
      by (simp add: snoc flat_append tag_token_eq butlast_append)
    with assms show ?thesis by (metis append1_eq_conv)
  qed
qed

lemma flat_suffix_clean:
  "flat r = u @ b \<Longrightarrow> 95 \<notin> set b \<Longrightarrow> \<exists>r'. r = r' @ map Ch b \<and> flat r' = u"
proof (induction b arbitrary: r rule: rev_induct)
  case Nil
  then show ?case by simp
next
  case (snoc c b)
  hence "flat r = (u @ b) @ [c]" "c \<noteq> 95" by auto
  then obtain r1 where r1: "r = r1 @ [Ch c]" "flat r1 = u @ b"
    using flat_snoc_clean by blast
  from snoc.IH [OF r1(2)] snoc.prems(2) obtain r' where "r1 = r' @ map Ch b" "flat r' = u"
    by auto
  with r1 show ?case by simp
qed

lemma not_space_underscore: "\<not> is_space 95"
  by (simp add: is_space_def)

lemma spaces_no_underscore: "list_all is_space a \<Longrightarrow> 95 \<notin> set a"
  using not_space_underscore by (auto simp: list_all_iff)

lemma strip_items:
  assumes "clean_items items"
  shows "\<exists>it. strip (flat items) = flat it \<and> clean_items it \<and> toks it = toks items"
proof -
  obtain a b where ab: "flat items = a @ strip (flat items) @ b"
      "list_all is_space a" "list_all is_space b"
    using strip_parts by blast
  obtain r1 where r1: "items = map Ch a @ r1" "flat r1 = strip (flat items) @ b"
    using flat_prefix_clean [OF ab(1)] spaces_no_underscore [OF ab(2)] by blast
  obtain r2 where r2: "r1 = r2 @ map Ch b" "flat r2 = strip (flat items)"
    using flat_suffix_clean [OF r1(2)] spaces_no_underscore [OF ab(3)] by blast
  have "items = map Ch a @ r2 @ map Ch b" using r1(1) r2(1) by simp
  hence "toks items = toks r2" "clean_items r2"
    using assms by (simp_all add: toks_append toks_map_Ch clean_items_append)
  with r2(2) show ?thesis by (intro exI [of _ r2]) simp
qed

lemma spaces_sub_skip:
  "\<forall>c \<in> set u. \<not> is_space c \<Longrightarrow>
   re_sub SPACES_RE [32] (u @ w) = u @ re_sub SPACES_RE [32] w"
  by (induction u) (simp_all add: spaces_sub_Cons del: re_sub.simps(2))

lemma tag_token_no_space: "c \<in> set (tag_token j) \<Longrightarrow> \<not> is_space c"
  using str_nat_digits [of c j] by (auto simp: tag_token_eq is_space_def)

lemma spaces_sub_items:
  "clean_items items \<Longrightarrow>
   \<exists>it. re_sub SPACES_RE [32] (flat items) = flat it \<and> clean_items it \<and> toks it = toks items"
proof (induction "length items" arbitrary: items rule: less_induct)
  case less
  show ?case
  proof (cases items rule: flat.cases)
    case 1
    then show ?thesis by (intro exI [of _ "[]"]) simp
  next
    case (3 j r)
    have "\<exists>it. re_sub SPACES_RE [32] (flat r) = flat it \<and> clean_items it \<and> toks it = toks r"
      using less.prems 3 by (intro less.hyps) auto
    then obtain it where it: "re_sub SPACES_RE [32] (flat r) = flat it" "clean_items it"
        "toks it = toks r"
      by blast
    have ns: "\<forall>c \<in> set (tag_token j). \<not> is_space c"
      using tag_token_no_space by blast
    have "re_sub SPACES_RE [32] (flat items) = tag_token j @ re_sub SPACES_RE [32] (flat r)"
      unfolding 3 flat.simps using ns by (rule spaces_sub_skip)
    with it show ?thesis by (intro exI [of _ "Tok j # it"]) (simp add: 3)
  next
    case (2 c r)
    show ?thesis
    proof (cases "is_space c")
      case False
      have "\<exists>it. re_sub SPACES_RE [32] (flat r) = flat it \<and> clean_items it \<and> toks it = toks r"
        using less.prems 2 by (intro less.hyps) auto
      then obtain it where it: "re_sub SPACES_RE [32] (flat r) = flat it" "clean_items it"
          "toks it = toks r"
        by blast
      have "re_sub SPACES_RE [32] (flat items) = c # re_sub SPACES_RE [32] (flat r)"
        using False by (simp add: 2 spaces_sub_Cons del: re_sub.simps(2))
      with it less.prems 2 show ?thesis by (intro exI [of _ "Ch c # it"]) simp
    next
      case True
      define a where "a = takeWhile is_space (flat r)"
      have "flat r = a @ dropWhile is_space (flat r)" by (simp add: a_def)
      moreover have "95 \<notin> set a"
        using not_space_underscore by (auto simp: a_def dest: set_takeWhileD)
      ultimately obtain r' where r': "r = map Ch a @ r'" "flat r' = dropWhile is_space (flat r)"
        using flat_prefix_clean by blast
      have len: "length r' < length items"
        unfolding 2 r'(1) by simp
      have cr: "clean_items r'"
        using less.prems unfolding 2 r'(1) by (simp add: clean_items_append)
      from less.hyps [OF len cr] obtain it where
        it: "re_sub SPACES_RE [32] (flat r') = flat it" "clean_items it" "toks it = toks r'"
        by blast
      have tr: "toks r' = toks items"
        unfolding 2 r'(1) by (simp add: toks_append toks_map_Ch)
      have "re_sub SPACES_RE [32] (flat items) = 32 # re_sub SPACES_RE [32] (flat r')"
        using True by (simp add: 2 r'(2) spaces_sub_Cons del: re_sub.simps(2))
      with it tr show ?thesis by (intro exI [of _ "Ch 32 # it"]) simp
    qed
  qed
qed

lemma take_within_takeWhile:
  "k \<le> length (takeWhile P s) \<Longrightarrow> \<forall>c \<in> set (take k s). P c"
proof -
  assume k: "k \<le> length (takeWhile P s)"
  have "take k s = take k (takeWhile P s @ dropWhile P s)" by simp
  also have "\<dots> = take k (takeWhile P s)" using k by (simp del: takeWhile_dropWhile_id)
  finally show ?thesis by (auto dest: in_set_takeD set_takeWhileD)
qed

lemma find_rev_upt_SomeD:
  "find P (rev [0..<Suc w]) = Some k \<Longrightarrow> P k \<and> k \<le> w"
proof (induction w)
  case 0
  then show ?case by (auto split: if_splits)
next
  case (Suc w)
  show ?case
  proof (cases "P (Suc w)")
    case True
    with Suc.prems show ?thesis by (subst (asm) find_rev_upt_Suc) simp
  next
    case False
    with Suc.prems have "find P (rev [0..<Suc w]) = Some k"
      by (subst (asm) find_rev_upt_Suc) simp
    from Suc.IH [OF this] show ?thesis by simp
  qed
qed

text \<open>What \<open>SPEAKER_RE\<close> cuts off in front of the rest, and the line feed it may leave
  behind it, hold no underscore.\<close>

lemma SPEAKER_RE_parts:
  assumes "SPEAKER_RE s = Some (speaker, rest)"
  shows "\<exists>pre left. s = pre @ rest @ left \<and> 95 \<notin> set pre \<and> 95 \<notin> set left"
proof -
  let ?w = "length (takeWhile is_space s)"
  obtain k where k: "find (speaker_head s) (rev [0..<Suc ?w]) = Some k"
    using assms by (auto simp: SPEAKER_RE_def split: option.splits)
  hence kh: "speaker_head s k" "k \<le> ?w"
    using find_rev_upt_SomeD [of "speaker_head s" ?w k] by blast+
  obtain run r where sh: "drop k s = run @ 58 # r" "list_all speaker_char run"
    using speaker_head_shape [OF kh(1)] by blast
  note at = speaker_head_at [OF sh]
  let ?w2 = "length (takeWhile is_space r)"
  obtain j where j: "find (\<lambda>j. speaker_tail (drop j r)) (rev [0..<Suc ?w2]) = Some j"
      and rest: "rest = takeWhile (\<lambda>c. c \<noteq> 10) (drop j r)"
    using assms unfolding SPEAKER_RE_def k
    by (simp only: option.case Let_def at(2,3)) (auto split: option.splits)
  hence jt: "speaker_tail (drop j r)" "j \<le> ?w2"
    using find_rev_upt_SomeD [of "\<lambda>j. speaker_tail (drop j r)" ?w2 j] by blast+
  let ?left = "dropWhile (\<lambda>c. c \<noteq> 10) (drop j r)"
  have left: "?left = [] \<or> ?left = [10]"
    using jt(1) by (simp add: speaker_tail_def Let_def)
  have "drop j r = rest @ ?left" by (simp add: rest)
  hence "r = take j r @ rest @ ?left" by (metis append_take_drop_id)
  moreover have "s = take k s @ drop k s" by simp
  ultimately have "s = (take k s @ run @ [58] @ take j r) @ rest @ ?left"
    using sh(1) by simp
  moreover have "95 \<notin> set (take k s)"
    using take_within_takeWhile [OF kh(2)] not_space_underscore by blast
  moreover have "95 \<notin> set (take j r)"
    using take_within_takeWhile [OF jt(2)] not_space_underscore by blast
  moreover have "95 \<notin> set run"
    using sh(2) by (auto simp: list_all_iff speaker_char_def)
  moreover have "95 \<notin> set ?left"
  proof (rule disjE [OF left])
    assume a: "?left = []"
    show ?thesis unfolding a by simp
  next
    assume a: "?left = [10]"
    show ?thesis unfolding a by simp
  qed
  ultimately show ?thesis
    by (intro exI [of _ "take k s @ run @ [58] @ take j r"] exI [of _ ?left]) simp
qed

lemma strip_speaker_items:
  assumes "clean_items items"
  shows "\<exists>it. strip_speaker (flat items) cfg = flat it \<and> clean_items it \<and> toks it = toks items"
proof (cases "strip_speaker (flat items) cfg = flat items")
  case True
  with assms show ?thesis by (intro exI [of _ items]) simp
next
  case False
  then obtain speaker rest where m: "SPEAKER_RE (flat items) = Some (speaker, rest)"
      and res: "strip_speaker (flat items) cfg = rest"
    by (auto simp: strip_speaker_def split: option.splits if_splits)
  obtain pre left where p: "flat items = pre @ rest @ left" "95 \<notin> set pre" "95 \<notin> set left"
    using SPEAKER_RE_parts [OF m] by blast
  obtain r1 where r1: "items = map Ch pre @ r1" "flat r1 = rest @ left"
    using flat_prefix_clean [OF p(1,2)] by blast
  obtain r2 where r2: "r1 = r2 @ map Ch left" "flat r2 = rest"
    using flat_suffix_clean [OF r1(2) p(3)] by blast
  have "items = map Ch pre @ r2 @ map Ch left" using r1(1) r2(1) by simp
  hence "toks items = toks r2" "clean_items r2"
    using assms by (simp_all add: toks_append toks_map_Ch clean_items_append)
  with r2(2) res show ?thesis by (intro exI [of _ r2]) simp
qed

section \<open>What the passes record\<close>

text \<open>The shape of a match of \<open>BR_TAG_RE\<close>.\<close>

lemma BR_TAG_RE_shape:
  "BR_TAG_RE s = Some n \<longleftrightarrow>
     (\<exists>b r ws sl rest. s = 60 # b # r # ws @ sl @ 62 # rest \<and> (b = 98 \<or> b = 66) \<and>
        (r = 114 \<or> r = 82) \<and> list_all is_space ws \<and> (sl = [] \<or> sl = [47]) \<and>
        n = 3 + length ws + length sl + 1)"
proof
  assume m: "BR_TAG_RE s = Some n"
  then obtain lt b r t where s: "s = lt # b # r # t"
    by (auto simp: BR_TAG_RE_def split: list.splits)
  define ws where "ws = takeWhile is_space t"
  define t1 where "t1 = dropWhile is_space t"
  define sl where "sl = (case t1 of [] \<Rightarrow> 0 | c # _ \<Rightarrow> if c = 47 then 1 else (0::nat))"
  define t2 where "t2 = drop sl t1"
  have c: "lt = 60" "b = 98 \<or> b = 66" "r = 114 \<or> r = 82" "t2 \<noteq> []" "hd t2 = 62"
      "n = 3 + length ws + sl + 1"
    using m unfolding s BR_TAG_RE_def
    by (auto simp: Let_def ws_def t1_def sl_def t2_def split: if_splits)
  have t: "t = ws @ t1" by (simp add: ws_def t1_def)
  have sl: "(sl = 0 \<and> take sl t1 = []) \<or> (sl = 1 \<and> take sl t1 = [47])"
    by (cases t1) (auto simp: sl_def)
  have sll: "length (take sl t1) = sl"
    by (cases t1) (auto simp: sl_def)
  have t1: "t1 = take sl t1 @ t2" by (simp add: t2_def)
  obtain rest where t2: "t2 = 62 # rest"
    using c(4,5) by (cases t2) auto
  have "s = 60 # b # r # ws @ take sl t1 @ 62 # rest"
    using s c(1) t t1 t2 by simp
  moreover have "list_all is_space ws"
    by (auto simp: ws_def list_all_iff dest: set_takeWhileD)
  moreover have "take sl t1 = [] \<or> take sl t1 = [47]" using sl by auto
  moreover have "n = 3 + length ws + length (take sl t1) + 1"
    unfolding sll using c(6) .
  ultimately show "\<exists>b r ws sl rest. s = 60 # b # r # ws @ sl @ 62 # rest \<and> (b = 98 \<or> b = 66) \<and>
        (r = 114 \<or> r = 82) \<and> list_all is_space ws \<and> (sl = [] \<or> sl = [47]) \<and>
        n = 3 + length ws + length sl + 1"
    using c(2,3) by blast
next
  assume "\<exists>b r ws sl rest. s = 60 # b # r # ws @ sl @ 62 # rest \<and> (b = 98 \<or> b = 66) \<and>
        (r = 114 \<or> r = 82) \<and> list_all is_space ws \<and> (sl = [] \<or> sl = [47]) \<and>
        n = 3 + length ws + length sl + 1"
  then obtain b r ws sl rest where s: "s = 60 # b # r # ws @ sl @ 62 # rest"
      and c: "b = 98 \<or> b = 66" "r = 114 \<or> r = 82" "list_all is_space ws" "sl = [] \<or> sl = [47]"
        "n = 3 + length ws + length sl + 1"
    by blast
  have ns: "\<not> is_space 47" "\<not> is_space 62" by (simp_all add: is_space_def)
  have hdns: "\<not> is_space (hd (sl @ 62 # rest))"
    using c(4) ns by auto
  have tw: "takeWhile is_space (ws @ sl @ 62 # rest) = ws"
    using c(3) hdns by (induction ws) (auto simp: takeWhile_eq_Nil_iff)
  have dw: "dropWhile is_space (ws @ sl @ 62 # rest) = sl @ 62 # rest"
    using c(3) hdns by (induction ws) (auto simp: dropWhile_eq_self_iff)
  show "BR_TAG_RE s = Some n"
    using c(1,2,4,5) unfolding s BR_TAG_RE_def
    by (auto simp: tw dw Let_def)
qed


subsection \<open>Matches depend on the matched text only\<close>

lemma BR_TAG_RE_local:
  assumes "BR_TAG_RE s = Some n"
  shows "1 \<le> n \<and> n \<le> length s \<and> BR_TAG_RE (take n s @ w) = Some n \<and> 95 \<notin> set (take n s)"
proof -
  obtain b r ws sl rest where s: "s = 60 # b # r # ws @ sl @ 62 # rest"
      and c: "b = 98 \<or> b = 66" "r = 114 \<or> r = 82" "list_all is_space ws" "sl = [] \<or> sl = [47]"
        "n = 3 + length ws + length sl + 1"
    using assms BR_TAG_RE_shape [of s n] by blast
  have "length (60 # b # r # ws @ sl @ [62]) = n"
    unfolding c(5) by simp
  moreover have "s = (60 # b # r # ws @ sl @ [62]) @ rest"
    unfolding s by simp
  ultimately have tk: "take n s = 60 # b # r # ws @ sl @ [62]"
    by (metis append_eq_conv_conj)
  have "take n s @ w = 60 # b # r # ws @ sl @ 62 # w"
    unfolding tk by simp
  hence "BR_TAG_RE (take n s @ w) = Some n"
    using c BR_TAG_RE_shape [of "take n s @ w" n] by blast
  moreover have "95 \<notin> set (take n s)"
    unfolding tk using c(1,2,3,4) not_space_underscore by (auto simp: list_all_iff)
  moreover have "n \<le> length s" unfolding s c(5) by simp
  ultimately show ?thesis using c(5) by simp
qed

lemma delim_match_local:
  assumes "delim_match opn cls least s = Some n"
  shows "1 \<le> n \<and> n \<le> length s \<and> delim_match opn cls least (take n s @ w) = Some n"
proof -
  obtain c t where s: "s = c # t"
    using assms by (cases s) (auto simp: delim_match_def)
  define body where "body = takeWhile (\<lambda>x. x \<noteq> cls) t"
  have f: "c = opn" "least \<le> length body" "length body < length t" "n = length body + 2"
    using assms unfolding s delim_match_def
    by (auto simp: Let_def body_def split: if_splits)
  have t: "t = body @ dropWhile (\<lambda>x. x \<noteq> cls) t" by (simp add: body_def)
  have "dropWhile (\<lambda>x. x \<noteq> cls) t \<noteq> []"
    using f(3) unfolding body_def by (metis append_Nil2 less_irrefl_nat takeWhile_dropWhile_id) 
  then obtain z rest where z: "dropWhile (\<lambda>x. x \<noteq> cls) t = z # rest"
    by (cases "dropWhile (\<lambda>x. x \<noteq> cls) t") auto
  have "\<not> (hd (dropWhile (\<lambda>x. x \<noteq> cls) t) \<noteq> cls)"
    by (rule hd_dropWhile) (simp add: z)
  hence zc: "z = cls" by (simp add: z)
  have t': "t = body @ cls # rest" using t z zc by simp
  have nb: "cls \<notin> set body" by (auto simp: body_def dest: set_takeWhileD)
  have tk: "take n s = c # body @ [cls]"
    unfolding s f(4) by (subst t') simp
  have tw: "takeWhile (\<lambda>x. x \<noteq> cls) (body @ cls # w) = body"
    using nb by (induction body) auto
  have "delim_match opn cls least (take n s @ w) = Some n"
    unfolding tk using f(1,2,4) by (simp add: delim_match_def tw)
  moreover have "n \<le> length s" unfolding s f(4) using f(3) by simp
  ultimately show ?thesis using f(4) by simp
qed

lemma ASS_NEWLINE_RE_local:
  assumes "ASS_NEWLINE_RE s = Some n"
  shows "1 \<le> n \<and> n \<le> length s \<and> ASS_NEWLINE_RE (take n s @ w) = Some n \<and>
         95 \<notin> set (take n s)"
  using assms by (auto simp: ASS_NEWLINE_RE_def split: list.splits if_splits)

lemma BR_TAG_RE_self:
  "BR_TAG_RE s = Some n \<Longrightarrow> n \<le> length s \<and> BR_TAG_RE (take n s) = Some n"
  using BR_TAG_RE_local [of s n "[]"] by simp

lemma delim_match_self:
  "delim_match opn cls least s = Some n \<Longrightarrow>
   n \<le> length s \<and> delim_match opn cls least (take n s) = Some n"
  using delim_match_local [of opn cls least s n "[]"] by simp

lemma ASS_NEWLINE_RE_self:
  "ASS_NEWLINE_RE s = Some n \<Longrightarrow> n \<le> length s \<and> ASS_NEWLINE_RE (take n s) = Some n"
  using ASS_NEWLINE_RE_local [of s n "[]"] by simp

text \<open>Each span a pass records is spanned by the pattern of the pass.\<close>

lemma sub_store_spans:
  assumes loc: "\<And>s n. m s = Some n \<Longrightarrow> n \<le> length s \<and> m (take n s) = Some n"
  shows "\<forall>p \<in> set (snd (sub_store m (s, P))). p \<in> set P \<or> fullmatch m p"
proof (induction s arbitrary: P rule: length_induct)
  case (1 s)
  show ?case
  proof (cases s)
    case Nil
    then show ?thesis by simp
  next
    case (Cons c cs)
    show ?thesis
    proof (cases "m (c # cs)")
      case None
      have "length cs < length s" using Cons by simp
      hence "\<forall>p \<in> set (snd (sub_store m (cs, P))). p \<in> set P \<or> fullmatch m p"
        using 1 by blast
      with None Cons show ?thesis by (simp add: Let_def)
    next
      case (Some n)
      have fm: "fullmatch m (take n (c # cs))"
        using loc [OF Some] by (simp add: fullmatch_def min_def)
      have "length (drop (n - 1) cs) < length s" using Cons by simp
      hence "\<forall>p \<in> set (snd (sub_store m (drop (n - 1) cs, P @ [take n (c # cs)]))).
               p \<in> set (P @ [take n (c # cs)]) \<or> fullmatch m p"
        using 1 by blast
      with Some Cons fm show ?thesis by (auto simp: Let_def)
    qed
  qed
qed

lemma shield_spans: "list_all is_span (snd (shield line))"
proof -
  let ?r1 = "sub_store BR_TAG_RE (line, [])"
  let ?r2 = "sub_store HTML_TAG_RE ?r1"
  let ?r3 = "sub_store ASS_OVERRIDE_RE ?r2"
  let ?r4 = "sub_store ASS_NEWLINE_RE ?r3"
  have "\<forall>p \<in> set (snd (sub_store BR_TAG_RE (line, []))).
          p \<in> set [] \<or> fullmatch BR_TAG_RE p"
    by (rule sub_store_spans) (rule BR_TAG_RE_self)
  hence 1: "\<forall>p \<in> set (snd ?r1). is_span p"
    by (auto simp: is_span_def)
  have "\<forall>p \<in> set (snd (sub_store HTML_TAG_RE (fst ?r1, snd ?r1))).
          p \<in> set (snd ?r1) \<or> fullmatch HTML_TAG_RE p"
    unfolding HTML_TAG_RE_def by (rule sub_store_spans) (rule delim_match_self)
  hence 2: "\<forall>p \<in> set (snd ?r2). is_span p"
    using 1 by (auto simp: is_span_def)
  have "\<forall>p \<in> set (snd (sub_store ASS_OVERRIDE_RE (fst ?r2, snd ?r2))).
          p \<in> set (snd ?r2) \<or> fullmatch ASS_OVERRIDE_RE p"
    unfolding ASS_OVERRIDE_RE_def by (rule sub_store_spans) (rule delim_match_self)
  hence 3: "\<forall>p \<in> set (snd ?r3). is_span p"
    using 2 by (auto simp: is_span_def)
  have "\<forall>p \<in> set (snd (sub_store ASS_NEWLINE_RE (fst ?r3, snd ?r3))).
          p \<in> set (snd ?r3) \<or> fullmatch ASS_NEWLINE_RE p"
    by (rule sub_store_spans) (rule ASS_NEWLINE_RE_self)
  hence 4: "\<forall>p \<in> set (snd ?r4). is_span p"
    using 3 by (auto simp: is_span_def)
  thus ?thesis by (simp add: shield_def list_all_iff)
qed

subsection \<open>Nothing is left to shield\<close>

lemma unmatched_drop: "unmatched m s \<Longrightarrow> unmatched m (drop k s)"
proof (induction s arbitrary: k)
  case Nil
  show ?case by simp
next
  case (Cons c s)
  then show ?case by (cases k) auto
qed

lemma unmatched_append:
  "(\<And>x w. x \<in> set u \<Longrightarrow> m (x # w) = None) \<Longrightarrow> unmatched m w \<Longrightarrow> unmatched m (u @ w)"
  by (induction u) auto

text \<open>A text without underscore that starts the result of a pass starts its input.\<close>

lemma sub_store_prefix:
  "prefix q (fst (sub_store m (t, P))) \<Longrightarrow> 95 \<notin> set q \<Longrightarrow> prefix q t"
proof (induction t arbitrary: q P)
  case Nil
  then show ?case by simp
next
  case (Cons c cs)
  show ?case
  proof (cases "m (c # cs)")
    case None
    show ?thesis
    proof (cases q)
      case Nil
      then show ?thesis by simp
    next
      case q: (Cons x q')
      with Cons.prems None have "x = c" "prefix q' (fst (sub_store m (cs, P)))" "95 \<notin> set q'"
        by (auto simp: Let_def)
      with Cons.IH [of q' P] q show ?thesis by simp
    qed
  next
    case (Some n)
    hence "prefix q (tag_token (length P) @
             fst (sub_store m (drop (n - 1) cs, P @ [take n (c # cs)])))"
      using Cons.prems(1) by (simp add: Let_def)
    hence "q = []"
      using Cons.prems(2) by (cases q) (auto simp: tag_token_eq)
    thus ?thesis by simp
  qed
qed

lemma sub_store_set:
  "x \<in> set (fst (sub_store m (t, P))) \<Longrightarrow> x \<in> set t \<or> (\<exists>k. x \<in> set (tag_token k))"
proof (induction t arbitrary: P rule: length_induct)
  case (1 t)
  show ?case
  proof (cases t)
    case Nil
    with 1 show ?thesis by simp
  next
    case (Cons c cs)
    show ?thesis
    proof (cases "m (c # cs)")
      case None
      have "length cs < length t" using Cons by simp
      with 1 have "\<And>P. x \<in> set (fst (sub_store m (cs, P))) \<Longrightarrow>
                     x \<in> set cs \<or> (\<exists>k. x \<in> set (tag_token k))"
        by blast
      with 1(2) None Cons show ?thesis by (auto simp: Let_def)
    next
      case (Some n)
      have "length (drop (n - 1) cs) < length t" using Cons by simp
      with 1 have "\<And>P. x \<in> set (fst (sub_store m (drop (n - 1) cs, P))) \<Longrightarrow>
                     x \<in> set (drop (n - 1) cs) \<or> (\<exists>k. x \<in> set (tag_token k))"
        by blast
      with 1(2) Some Cons show ?thesis by (auto simp: Let_def dest: in_set_dropD)
    qed
  qed
qed

text \<open>Where a pattern did not match, it does not match after a pass over the text
  behind: a match of \<open>BR_TAG_RE\<close> or \<open>ASS_NEWLINE_RE\<close> holds no underscore, so it would
  lie in the text as it was.\<close>

lemma keep_local:
  assumes loc: "\<And>s n w. m s = Some n \<Longrightarrow>
             1 \<le> n \<and> n \<le> length s \<and> m (take n s @ w) = Some n \<and> 95 \<notin> set (take n s)"
      and none: "m (c # cs) = None"
  shows "m (c # fst (sub_store m2 (cs, P))) = None"
proof (cases "m (c # fst (sub_store m2 (cs, P)))")
  case None
  then show ?thesis .
next
  case (Some n)
  let ?O = "fst (sub_store m2 (cs, P))"
  note l = loc [OF Some]
  obtain n' where n: "n = Suc n'" using l by (cases n) auto
  have tk: "take n (c # ?O) = c # take n' ?O" by (simp add: n)
  have "prefix (take n' ?O) ?O" by (rule take_is_prefix)
  moreover have "95 \<notin> set (take n' ?O)" using l tk by simp
  ultimately have "prefix (take n' ?O) cs" by (rule sub_store_prefix)
  then obtain rest where cs: "cs = take n' ?O @ rest" by (auto simp: prefix_def)
  have "m (take n (c # ?O) @ rest) = Some n" using l by blast
  hence "m (c # cs) = Some n" unfolding tk using cs by simp
  with none show ?thesis by simp
qed

text \<open>A pattern \<open>o[^c]*c\<close> or \<open>o[^c]+c\<close> that did not match at an opening character
  found no closing character behind it, or found it at once; a pass brings no closing
  character in and takes none away from that place.\<close>

lemma keep_delim:
  assumes trig: "\<And>c t n. m2 (c # t) = Some n \<Longrightarrow> 1 \<le> n \<and> (c = 60 \<or> c = 123 \<or> c = 92)"
      and cls: "cls = 62 \<or> cls = 125" and least: "least \<le> 1"
      and none: "delim_match opn cls least (c # cs) = None"
  shows "delim_match opn cls least (c # fst (sub_store m2 (cs, P))) = None"
proof (cases "c = opn")
  case False
  then show ?thesis by (rule delim_match_start)
next
  case True
  let ?O = "fst (sub_store m2 (cs, P))"
  have tokc: "cls \<notin> set (tag_token k)" for k
    using cls str_nat_digits [of cls k] by (auto simp: tag_token_eq)
  show ?thesis
  proof (cases "cls \<in> set cs")
    case False
    hence "cls \<notin> set ?O" using sub_store_set [of cls m2 cs P] tokc by blast
    hence "takeWhile (\<lambda>x. x \<noteq> cls) ?O = ?O"
      by (intro takeWhile_eq_all_conv [THEN iffD2]) auto
    hence "length (takeWhile (\<lambda>x. x \<noteq> cls) ?O) = length ?O"
      by (rule arg_cong)
    thus ?thesis by (simp add: delim_match_def)
  next
    case in_cs: True
    hence "length (takeWhile (\<lambda>x. x \<noteq> cls) cs) < length cs"
      by (auto simp: length_takeWhile_less)
    hence "\<not> least \<le> length (takeWhile (\<lambda>x. x \<noteq> cls) cs)"
      using none True by (auto simp: delim_match_def Let_def split: if_splits)
    hence "least = 1 \<and> length (takeWhile (\<lambda>x. x \<noteq> cls) cs) = 0"
      using least by linarith
    hence l1: "least = 1" and e: "takeWhile (\<lambda>x. x \<noteq> cls) cs = []"
      by (simp_all only: length_0_conv)
    obtain cs' where cs: "cs = cls # cs'"
      using e in_cs by (cases cs) (auto split: if_splits)
    have "m2 (cls # cs') = None"
    proof (cases "m2 (cls # cs')")
      case None
      then show ?thesis .
    next
      case (Some n)
      from trig [OF this] cls show ?thesis by auto
    qed
    hence "?O = cls # fst (sub_store m2 (cs', P))"
      by (simp add: cs Let_def)
    hence "takeWhile (\<lambda>x. x \<noteq> cls) ?O = []" by simp
    thus ?thesis using l1 by (simp add: delim_match_def)
  qed
qed

lemma sub_store_unmatched:
  assumes tok: "\<And>k x w. x \<in> set (tag_token k) \<Longrightarrow> m (x # w) = None"
      and keep: "\<And>c cs P. m (c # cs) = None \<Longrightarrow> m (c # fst (sub_store m2 (cs, P))) = None"
      and pre: "unmatched m t \<or> m2 = m"
  shows "unmatched m (fst (sub_store m2 (t, P)))"
  using pre
proof (induction t arbitrary: P rule: length_induct)
  case (1 t)
  show ?case
  proof (cases t)
    case Nil
    then show ?thesis by simp
  next
    case (Cons c cs)
    show ?thesis
    proof (cases "m2 (c # cs)")
      case None
      have mn: "m (c # cs) = None"
        using "1.prems" None Cons by auto
      have pre': "unmatched m cs \<or> m2 = m"
        using "1.prems" Cons by auto
      have "length cs < length t" using Cons by simp
      with 1 pre' have "unmatched m (fst (sub_store m2 (cs, P)))" by blast
      moreover have "m (c # fst (sub_store m2 (cs, P))) = None"
        using mn by (rule keep)
      ultimately show ?thesis using None Cons by (simp add: Let_def)
    next
      case (Some n)
      let ?P = "P @ [take n (c # cs)]"
      have pre': "unmatched m (drop (n - 1) cs) \<or> m2 = m"
        using "1.prems" Cons unmatched_drop [of m cs "n - 1"] by auto
      have "length (drop (n - 1) cs) < length t" using Cons by simp
      with 1 pre' have "unmatched m (fst (sub_store m2 (drop (n - 1) cs, ?P)))" by blast
      hence "unmatched m (tag_token (length P) @ fst (sub_store m2 (drop (n - 1) cs, ?P)))"
        using tok by (intro unmatched_append) blast+
      thus ?thesis using Some Cons by (simp add: Let_def)
    qed
  qed
qed

lemma tok_BR: "x \<in> set (tag_token k) \<Longrightarrow> BR_TAG_RE (x # w) = None"
  using tag_token_chars [of x k] by (intro BR_TAG_RE_start) simp

lemma tok_delim:
  "opn = 60 \<or> opn = 123 \<Longrightarrow> x \<in> set (tag_token k) \<Longrightarrow> delim_match opn cls least (x # w) = None"
  using tag_token_chars [of x k] by (intro delim_match_start) auto

lemma tok_NL: "x \<in> set (tag_token k) \<Longrightarrow> ASS_NEWLINE_RE (x # w) = None"
  using tag_token_chars [of x k] by (intro ASS_NEWLINE_RE_start) simp

lemma keep_BR:
  "BR_TAG_RE (c # cs) = None \<Longrightarrow> BR_TAG_RE (c # fst (sub_store m2 (cs, P))) = None"
  by (rule keep_local [of BR_TAG_RE]) (rule BR_TAG_RE_local)

lemma keep_NL:
  "ASS_NEWLINE_RE (c # cs) = None \<Longrightarrow> ASS_NEWLINE_RE (c # fst (sub_store m2 (cs, P))) = None"
  by (rule keep_local [of ASS_NEWLINE_RE]) (rule ASS_NEWLINE_RE_local)

lemma pass_BR:
  "unmatched BR_TAG_RE t \<or> m2 = BR_TAG_RE \<Longrightarrow> unmatched BR_TAG_RE (fst (sub_store m2 (t, P)))"
  by (rule sub_store_unmatched [where m = BR_TAG_RE]) (erule tok_BR, erule keep_BR, assumption)

lemma pass_NL:
  "unmatched ASS_NEWLINE_RE t \<or> m2 = ASS_NEWLINE_RE \<Longrightarrow>
   unmatched ASS_NEWLINE_RE (fst (sub_store m2 (t, P)))"
  by (rule sub_store_unmatched [where m = ASS_NEWLINE_RE]) (erule tok_NL, erule keep_NL, assumption)

lemma pass_HTML:
  assumes "\<And>c t n. m2 (c # t) = Some n \<Longrightarrow> 1 \<le> n \<and> (c = 60 \<or> c = 123 \<or> c = 92)"
      and "unmatched HTML_TAG_RE t \<or> m2 = HTML_TAG_RE"
  shows "unmatched HTML_TAG_RE (fst (sub_store m2 (t, P)))"
proof (rule sub_store_unmatched [where m = HTML_TAG_RE])
  show "HTML_TAG_RE (x # w) = None" if "x \<in> set (tag_token k)" for k x w
    unfolding HTML_TAG_RE_def using that by (intro tok_delim) simp_all
  show "HTML_TAG_RE (c # fst (sub_store m2 (cs, P))) = None"
    if "HTML_TAG_RE (c # cs) = None" for c cs P
    using that unfolding HTML_TAG_RE_def by (intro keep_delim assms(1)) simp_all
  show "unmatched HTML_TAG_RE t \<or> m2 = HTML_TAG_RE" by (rule assms(2))
qed

lemma pass_ASS:
  assumes "\<And>c t n. m2 (c # t) = Some n \<Longrightarrow> 1 \<le> n \<and> (c = 60 \<or> c = 123 \<or> c = 92)"
      and "unmatched ASS_OVERRIDE_RE t \<or> m2 = ASS_OVERRIDE_RE"
  shows "unmatched ASS_OVERRIDE_RE (fst (sub_store m2 (t, P)))"
proof (rule sub_store_unmatched [where m = ASS_OVERRIDE_RE])
  show "ASS_OVERRIDE_RE (x # w) = None" if "x \<in> set (tag_token k)" for k x w
    unfolding ASS_OVERRIDE_RE_def using that by (intro tok_delim) simp_all
  show "ASS_OVERRIDE_RE (c # fst (sub_store m2 (cs, P))) = None"
    if "ASS_OVERRIDE_RE (c # cs) = None" for c cs P
    using that unfolding ASS_OVERRIDE_RE_def by (intro keep_delim assms(1)) simp_all
  show "unmatched ASS_OVERRIDE_RE t \<or> m2 = ASS_OVERRIDE_RE" by (rule assms(2))
qed

text \<open>After the four passes, none of the four patterns matches anywhere in the shielded
  line: every tag, override code and escape of the line has been recorded.\<close>

lemma shield_complete: "no_span_left (fst (shield line))"
proof -
  let ?r1 = "sub_store BR_TAG_RE (line, [])"
  let ?r2 = "sub_store HTML_TAG_RE (fst ?r1, snd ?r1)"
  let ?r3 = "sub_store ASS_OVERRIDE_RE (fst ?r2, snd ?r2)"
  let ?r4 = "sub_store ASS_NEWLINE_RE (fst ?r3, snd ?r3)"
  have sh: "shield line = ?r4" by (simp add: shield_def)
  have b1: "unmatched BR_TAG_RE (fst ?r1)"
    by (rule pass_BR) simp
  have b2: "unmatched BR_TAG_RE (fst ?r2)"
    using b1 by (intro pass_BR) simp
  have b3: "unmatched BR_TAG_RE (fst ?r3)"
    using b2 by (intro pass_BR) simp
  have b4: "unmatched BR_TAG_RE (fst ?r4)"
    using b3 by (intro pass_BR) simp
  have h2: "unmatched HTML_TAG_RE (fst ?r2)"
    by (rule pass_HTML [OF HTML_TAG_RE_trigger]) simp_all
  have h3: "unmatched HTML_TAG_RE (fst ?r3)"
    using h2 by (intro pass_HTML [OF ASS_OVERRIDE_RE_trigger]) simp_all
  have h4: "unmatched HTML_TAG_RE (fst ?r4)"
    using h3 by (intro pass_HTML [OF ASS_NEWLINE_RE_trigger]) simp_all
  have a3: "unmatched ASS_OVERRIDE_RE (fst ?r3)"
    by (rule pass_ASS [OF ASS_OVERRIDE_RE_trigger]) simp_all
  have a4: "unmatched ASS_OVERRIDE_RE (fst ?r4)"
    using a3 by (intro pass_ASS [OF ASS_NEWLINE_RE_trigger]) simp_all
  have n4: "unmatched ASS_NEWLINE_RE (fst ?r4)"
    by (rule pass_NL) simp
  show ?thesis
    unfolding sh no_span_left_def using b4 h4 a4 n4 by blast
qed

section \<open>The rules on a shielded line, brackets included\<close>

subsection \<open>Bracket removal on a shielded line\<close>

lemma re_sub_skip:
  "(\<And>x w. x \<in> set u \<Longrightarrow> m (x # w) = None) \<Longrightarrow> re_sub m repl (u @ w) = u @ re_sub m repl w"
  by (induction u) auto

lemma toks_subseq: "subseq a b \<Longrightarrow> subseq (toks a) (toks b)"
proof (induction rule: list_emb.induct)
  case (list_emb_Nil ys)
  show ?case by simp
next
  case (list_emb_Cons xs ys y)
  then show ?case by (cases y) auto
next
  case (list_emb_Cons2 x y xs ys)
  then show ?case by (cases y) auto
qed

text \<open>The first closing character of a shielded line is a plain character, and the text
  before it is the text of the items before it.\<close>

lemma flat_split_char:
  assumes "x \<in> set (flat r)" and "\<And>k. x \<notin> set (tag_token k)"
  shows "\<exists>ra rb. r = ra @ Ch x # rb \<and> flat ra = takeWhile (\<lambda>y. y \<noteq> x) (flat r)"
  using assms(1)
proof (induction r rule: flat.induct)
  case 1
  then show ?case by simp
next
  case (2 c r)
  show ?case
  proof (cases "c = x")
    case True
    then show ?thesis by (intro exI [of _ "[]"] exI [of _ r]) simp
  next
    case False
    with 2 obtain ra rb where "r = ra @ Ch x # rb" "flat ra = takeWhile (\<lambda>y. y \<noteq> x) (flat r)"
      by auto
    with False show ?thesis by (intro exI [of _ "Ch c # ra"] exI [of _ rb]) simp
  qed
next
  case (3 k r)
  have nt: "x \<notin> set (tag_token k)" by (rule assms(2))
  with 3 obtain ra rb where "r = ra @ Ch x # rb" "flat ra = takeWhile (\<lambda>y. y \<noteq> x) (flat r)"
    by auto
  moreover have "takeWhile (\<lambda>y. y \<noteq> x) (tag_token k @ flat r) =
                 tag_token k @ takeWhile (\<lambda>y. y \<noteq> x) (flat r)"
    using nt by (intro takeWhile_append2) auto
  ultimately show ?case by (intro exI [of _ "Tok k # ra"] exI [of _ rb]) simp
qed

lemma re_sub_delim_items:
  assumes opn: "\<And>k. opn \<notin> set (tag_token k)" and cls: "\<And>k. cls \<notin> set (tag_token k)"
  shows "clean_items items \<Longrightarrow>
         \<exists>it. re_sub (delim_match opn cls 0) [] (flat items) = flat it \<and> clean_items it \<and>
              subseq it items"
proof (induction "length items" arbitrary: items rule: less_induct)
  case less
  let ?m = "delim_match opn cls 0"
  show ?case
  proof (cases items rule: flat.cases)
    case 1
    then show ?thesis by (intro exI [of _ "[]"]) simp
  next
    case (3 j r)
    have "\<exists>it. re_sub ?m [] (flat r) = flat it \<and> clean_items it \<and> subseq it r"
      using less.prems 3 by (intro less.hyps) auto
    then obtain it where it: "re_sub ?m [] (flat r) = flat it" "clean_items it" "subseq it r"
      by blast
    have "?m (x # w) = None" if "x \<in> set (tag_token j)" for x w
      using that opn [of j] by (intro delim_match_start) auto
    hence "re_sub ?m [] (tag_token j @ flat r) = tag_token j @ re_sub ?m [] (flat r)"
      by (intro re_sub_skip) blast
    with it show ?thesis by (intro exI [of _ "Tok j # it"]) (simp add: 3)
  next
    case (2 c r)
    show ?thesis
    proof (cases "?m (c # flat r)")
      case None
      have "\<exists>it. re_sub ?m [] (flat r) = flat it \<and> clean_items it \<and> subseq it r"
        using less.prems 2 by (intro less.hyps) auto
      then obtain it where it: "re_sub ?m [] (flat r) = flat it" "clean_items it" "subseq it r"
        by blast
      with None less.prems 2 show ?thesis by (intro exI [of _ "Ch c # it"]) simp
    next
      case (Some n)
      hence "?m (c # flat r) \<noteq> None" by simp
      hence c: "c = opn" and inr: "cls \<in> set (flat r)"
        using delim_match_iff [of opn cls c "flat r"] by blast+
      have n: "n = length (takeWhile (\<lambda>y. y \<noteq> cls) (flat r)) + 2"
        using Some by (auto simp: delim_match_def Let_def split: if_splits)
      obtain ra rb where r: "r = ra @ Ch cls # rb"
          "flat ra = takeWhile (\<lambda>y. y \<noteq> cls) (flat r)"
        using flat_split_char [OF inr cls] by blast
      have fr: "flat r = flat ra @ cls # flat rb"
        by (subst r(1)) (simp add: flat_append)
      have "drop (n - 1) (flat r) = drop (Suc (length (flat ra))) (flat ra @ cls # flat rb)"
        unfolding n r(2) [symmetric] by (subst fr) simp
      hence dr: "drop (n - 1) (flat r) = flat rb" by simp
      have len: "length rb < length items" unfolding 2 r(1) by simp
      have crb: "clean_items rb"
        using less.prems unfolding 2 r(1) by (simp add: clean_items_append)
      from less.hyps [OF len crb] obtain it where
        it: "re_sub ?m [] (flat rb) = flat it" "clean_items it" "subseq it rb"
        by blast
      have "subseq rb (Ch c # ra @ Ch cls # rb)"
        by (intro list_emb_Cons list_emb_append2) simp
      with it(3) have "subseq it items"
        unfolding 2 r(1) using subseq_order.order_trans by blast
      moreover have "re_sub ?m [] (flat items) = flat it"
        using Some dr it(1) by (simp add: 2)
      ultimately show ?thesis using it(2) by blast
    qed
  qed
qed

lemma bracket_not_in_token:
  "91 \<notin> set (tag_token k)" "93 \<notin> set (tag_token k)" "40 \<notin> set (tag_token k)"
  "41 \<notin> set (tag_token k)"
  using str_nat_digits [of 91 k] str_nat_digits [of 93 k] str_nat_digits [of 40 k]
    str_nat_digits [of 41 k]
  by (auto simp: tag_token_eq)

lemma remove_inline_brackets_items:
  assumes "clean_items items"
  shows "\<exists>it. remove_inline_brackets (flat items) cfg = flat it \<and> clean_items it \<and>
              subseq it items"
proof -
  have sq: "\<exists>it. re_sub SQUARE_RE [] (flat x) = flat it \<and> clean_items it \<and> subseq it x"
    if "clean_items x" for x
    unfolding SQUARE_RE_def using that
    by (intro re_sub_delim_items bracket_not_in_token)
  have par: "\<exists>it. re_sub PAREN_RE [] (flat x) = flat it \<and> clean_items it \<and> subseq it x"
    if "clean_items x" for x
    unfolding PAREN_RE_def using that
    by (intro re_sub_delim_items bracket_not_in_token)
  obtain i1 where i1: "(if remove_between_square cfg \<and> \<not> between_only_if_separate_line cfg
             then re_sub SQUARE_RE [] (flat items) else flat items) = flat i1"
      "clean_items i1" "subseq i1 items"
    using sq [OF assms] assms
    by (cases "remove_between_square cfg \<and> \<not> between_only_if_separate_line cfg") auto
  obtain i2 where i2: "(if remove_between_paren cfg \<and> \<not> between_only_if_separate_line cfg
             then re_sub PAREN_RE [] (flat i1) else flat i1) = flat i2"
      "clean_items i2" "subseq i2 i1"
    using par [OF i1(2)] i1(2) by (cases "remove_between_paren cfg \<and> \<not> between_only_if_separate_line cfg") auto
  have "remove_inline_brackets (flat items) cfg = flat i2"
    using i1(1) i2(1) by (simp add: remove_inline_brackets_def Let_def)
  moreover have "subseq i2 items"
    using i2(3) i1(3) by (rule subseq_order.order_trans)
  ultimately show ?thesis using i2(2) by blast
qed

text \<open>Each placeholder holds five underscores.\<close>

lemma underscores_flat:
  "clean_items it \<Longrightarrow> length (filter (\<lambda>c. c = 95) (flat it)) = 5 * length (toks it)"
proof (induction it rule: flat.induct)
  case 1
  show ?case by simp
next
  case (2 c r)
  then show ?case by simp
next
  case (3 k r)
  have "filter (\<lambda>c. c = 95) (str_nat k) = []"
    using str_nat_digits [of 95 k] by (auto simp: filter_empty_conv)
  with 3 show ?case by (simp add: tag_token_eq)
qed

lemma remove_inline_brackets_keeps:
  assumes "clean_items items" and "keeps_placeholders cfg (flat items)"
  shows "\<exists>it. remove_inline_brackets (flat items) cfg = flat it \<and> clean_items it \<and>
              toks it = toks items"
proof -
  obtain it where it: "remove_inline_brackets (flat items) cfg = flat it" "clean_items it"
      "subseq it items"
    using remove_inline_brackets_items [OF assms(1)] by blast
  have "5 * length (toks it) = 5 * length (toks items)"
    using assms(2) unfolding keeps_placeholders_def it(1)
    by (simp only: underscores_flat [OF it(2)] underscores_flat [OF assms(1)])
  hence "length (toks it) = length (toks items)" by simp
  moreover have "subseq (toks it) (toks items)" using it(3) by (rule toks_subseq)
  ultimately have "toks it = toks items" by (metis subseq_same_length)
  with it show ?thesis by blast
qed

lemma rules_behind_brackets_items:
  assumes "clean_items i0"
  shows "\<exists>it. strip (re_sub SPACES_RE [32] (strip_speaker (flat i0) cfg)) = flat it \<and>
              clean_items it \<and> toks it = toks i0"
proof -
  obtain i1 where i1: "strip_speaker (flat i0) cfg = flat i1" "clean_items i1"
      "toks i1 = toks i0"
    using strip_speaker_items [OF assms] by blast
  obtain i2 where i2: "re_sub SPACES_RE [32] (flat i1) = flat i2" "clean_items i2"
      "toks i2 = toks i1"
    using spaces_sub_items [OF i1(2)] by blast
  obtain i3 where i3: "strip (flat i2) = flat i3" "clean_items i3" "toks i3 = toks i2"
    using strip_items [OF i2(2)] by blast
  show ?thesis
    using i1 i2 i3 by (intro exI [of _ i3]) simp
qed

lemma clean_rules_items_sub:
  assumes "clean_items items"
  shows "\<exists>it. clean_rules (flat items) cfg = flat it \<and> clean_items it \<and>
              subseq (toks it) (toks items)"
proof -
  obtain i0 where i0: "remove_inline_brackets (flat items) cfg = flat i0" "clean_items i0"
      "subseq i0 items"
    using remove_inline_brackets_items [OF assms] by blast
  obtain it where it: "strip (re_sub SPACES_RE [32] (strip_speaker (flat i0) cfg)) = flat it"
      "clean_items it" "toks it = toks i0"
    using rules_behind_brackets_items [OF i0(2)] by blast
  have "clean_rules (flat items) cfg = flat it"
    by (simp add: clean_rules_def i0(1) it(1))
  moreover have "subseq (toks it) (toks items)"
    unfolding it(3) using i0(3) by (rule toks_subseq)
  ultimately show ?thesis using it(2) by blast
qed

lemma clean_rules_items_keeps:
  assumes "clean_items items" and "keeps_placeholders cfg (flat items)"
  shows "\<exists>it. clean_rules (flat items) cfg = flat it \<and> clean_items it \<and> toks it = toks items"
proof -
  obtain i0 where i0: "remove_inline_brackets (flat items) cfg = flat i0" "clean_items i0"
      "toks i0 = toks items"
    using remove_inline_brackets_keeps [OF assms] by blast
  obtain it where it: "strip (re_sub SPACES_RE [32] (strip_speaker (flat i0) cfg)) = flat it"
      "clean_items it" "toks it = toks i0"
    using rules_behind_brackets_items [OF i0(2)] by blast
  have "clean_rules (flat items) cfg = flat it"
    by (simp add: clean_rules_def i0(1) it(1))
  with it i0(3) show ?thesis by (intro exI [of _ it]) simp
qed


section \<open>Spans in order\<close>

lemma in_order_Cons_iff:
  "in_order (p # ps) s \<longleftrightarrow>
     (\<exists>k \<le> length s. prefix p (drop k s) \<and> in_order ps (drop (k + length p) s))"
  by (auto simp: list_ex_iff less_Suc_eq_le simp del: upt_Suc)

lemma in_order_here: "in_order ps b \<Longrightarrow> in_order (p # ps) (a @ p @ b)"
  unfolding in_order_Cons_iff by (intro exI [of _ "length a"]) simp

lemma in_order_behind: "in_order ps b \<Longrightarrow> in_order ps (a @ b)"
proof (cases ps)
  case Nil
  then show ?thesis by simp
next
  case (Cons p ps')
  assume "in_order ps b"
  then obtain k where k: "k \<le> length b" "prefix p (drop k b)"
      "in_order ps' (drop (k + length p) b)"
    unfolding Cons in_order_Cons_iff by blast
  have "length a + k \<le> length (a @ b)" "prefix p (drop (length a + k) (a @ b))"
       "in_order ps' (drop (length a + k + length p) (a @ b))"
    using k by simp_all
  thus ?thesis
    unfolding Cons in_order_Cons_iff by blast
qed

lemma in_order_expand: "in_order (map (\<lambda>k. ps ! k) (toks it)) (expand ps it)"
proof (induction it rule: flat.induct)
  case 1
  show ?case by simp
next
  case (2 c r)
  from in_order_behind [OF this, of "[c]"] show ?case by simp
next
  case (3 k r)
  from in_order_here [OF this, of "ps ! k" "[]"] show ?case by simp
qed

lemma expand_no_underscore:
  "clean_items it \<Longrightarrow> \<forall>p \<in> set ps. 95 \<notin> set p \<Longrightarrow> \<forall>k \<in> set (toks it). k < length ps \<Longrightarrow>
   95 \<notin> set (expand ps it)"
  by (induction it rule: flat.induct) auto

section \<open>The shield round trip\<close>

text \<open>
  C1 (the claim as stated). Under the default configuration:
  the line \<open>__TAG_0__ <b>\<close> comes back as \<open><b> <b>\<close>, the text \<open>__TAG_0__\<close> of the user
  being taken for the placeholder of the tag; the tag of \<open>[<b>]\<close> is shielded and then
  deleted with the brackets around it; and the tag inside the braces of \<open>{a<b>c}\<close> is
  shielded first and not restored, its placeholder being restored before the braces are.
\<close>

theorem shield_round_trip_fails:
  "clean_line (cps ''__TAG_0__ <b>'') default_config = Some (cps ''<b> <b>'') \<and>
   snd (shield (cps ''[<b>]'')) = [cps ''<b>''] \<and>
   clean_line (cps ''[<b>]'') default_config = Some [] \<and>
   \<not> in_order [cps ''<b>''] [] \<and>
   snd (shield (cps ''{a<b>c}'')) = [cps ''<b>'', cps ''{a__TAG_0__c}''] \<and>
   clean_line (cps ''{a<b>c}'') default_config = Some (cps ''{a__TAG_0__c}'') \<and>
   \<not> in_order [cps ''<b>''] (cps ''{a__TAG_0__c}'')"
  by (simp add: text_defs regex_defs clean_defs config_defs)


text \<open>
  C1, amended. Take a line without underscore, none of whose recorded spans holds an
  underscore (no span encloses the placeholder of a span shielded before it), and a
  configuration under which inline bracket removal deletes no placeholder of the shielded
  line (as when it is switched off, or when no span stands between brackets). If
  \<open>clean_line\<close> does not drop the line, then:
  every recorded span is a line-break tag, another tag in angle brackets, an override code
  in braces or an escape \<open>\N\<close>, \<open>\n\<close>, that is, a text spanned by one of the four
  patterns; none of the four patterns matches anywhere in the shielded line, so no tag,
  code or escape of the line is left unrecorded; restoring the shielded line as it is
  gives the line back. The shielded line is a sequence of plain characters, none an
  underscore, and of placeholders, one for each recorded span, and the rules turn it into
  such a sequence with the same placeholders in the same order: the line and the returned
  line are these two sequences with each placeholder replaced by its span, so both hold
  every recorded span verbatim, one behind the other in the same order, and differ only
  in the plain characters between the spans. The returned line holds no underscore, so no
  placeholder is left in it.
\<close>

theorem shield_round_trip:
  assumes "95 \<notin> set line"
      and "list_all (\<lambda>p. 95 \<notin> set p) (snd (shield line))"
      and "keeps_placeholders cfg (fst (shield line))"
      and "clean_line line cfg = Some out"
  shows "list_all is_span (snd (shield line)) \<and>
         no_span_left (fst (shield line)) \<and>
         restore 0 (snd (shield line)) (fst (shield line)) = line \<and>
         (\<exists>items items'.
            fst (shield line) = flat items \<and>
            clean_rules (fst (shield line)) cfg = flat items' \<and>
            clean_items items \<and> clean_items items' \<and>
            distinct (toks items) \<and> set (toks items) = {0..<length (snd (shield line))} \<and>
            toks items' = toks items \<and>
            line = expand (snd (shield line)) items \<and>
            out = expand (snd (shield line)) items' \<and>
            in_order (map (\<lambda>k. snd (shield line) ! k) (toks items)) line \<and>
            in_order (map (\<lambda>k. snd (shield line) ! k) (toks items)) out) \<and>
         95 \<notin> set out"
proof -
  let ?P = "snd (shield line)"
  have spans: "\<forall>p \<in> set ?P. 95 \<notin> set p"
    using assms(2) by (simp add: list_all_iff)
  obtain items where it: "shield line = (flat items, ?P)" "clean_items items"
      "expand ?P items = line" "distinct (toks items)" "set (toks items) = {0..<length ?P}"
    using shield_items [OF assms(1) spans] by blast
  have fst: "fst (shield line) = flat items"
    using it(1) by (metis fst_conv)
  have keeps: "keeps_placeholders cfg (flat items)"
    using assms(3) unfolding fst .
  obtain it' where it': "clean_rules (flat items) cfg = flat it'" "clean_items it'"
      "toks it' = toks items"
    using clean_rules_items_keeps [OF it(2) keeps] by blast
  have lt0: "\<forall>k \<in> set (toks items). k < length ?P"
    using it(5) by simp
  have lt: "\<forall>k \<in> set (toks it'). k < length ?P"
    using it'(3) it(5) by simp
  have rt: "restore 0 ?P (fst (shield line)) = line"
    unfolding fst using restore_expand [OF it(2) spans lt0] it(3) by simp
  have "out = restore 0 ?P (clean_rules (fst (shield line)) cfg)"
    using assms(4) by (auto simp: clean_line_def Let_def split: if_splits)
  also have "\<dots> = expand ?P it'"
    unfolding fst it'(1) using it'(2) spans lt by (rule restore_expand)
  finally have out: "out = expand ?P it'" .
  have "in_order (map (\<lambda>k. ?P ! k) (toks items)) (expand ?P items)"
    by (rule in_order_expand)
  hence a: "in_order (map (\<lambda>k. ?P ! k) (toks items)) line"
    using it(3) by simp
  have "in_order (map (\<lambda>k. ?P ! k) (toks it')) (expand ?P it')"
    by (rule in_order_expand)
  hence b: "in_order (map (\<lambda>k. ?P ! k) (toks items)) out"
    using it'(3) out by simp
  have c: "95 \<notin> set out"
    unfolding out using it'(2) spans lt by (rule expand_no_underscore)
  have d: "clean_rules (fst (shield line)) cfg = flat it'"
    unfolding fst by (rule it'(1))
  have e: "line = expand ?P items" using it(3) by simp
  have ex: "\<exists>items items'.
            fst (shield line) = flat items \<and>
            clean_rules (fst (shield line)) cfg = flat items' \<and>
            clean_items items \<and> clean_items items' \<and>
            distinct (toks items) \<and> set (toks items) = {0..<length ?P} \<and>
            toks items' = toks items \<and>
            line = expand ?P items \<and>
            out = expand ?P items' \<and>
            in_order (map (\<lambda>k. ?P ! k) (toks items)) line \<and>
            in_order (map (\<lambda>k. ?P ! k) (toks items)) out"
    using fst d it(2) it'(2) it(4) it(5) it'(3) e out a b
    by (intro exI [of _ items] exI [of _ it']) blast
  show ?thesis
    using shield_spans [of line] shield_complete [of line] rt ex c by blast
qed

theorem shield_round_trip_witness:
  "95 \<notin> set (cps ''(door creaks) JOHN: <i>Get   out!</i> {an8}<br/>'') \<and>
   shield (cps ''(door creaks) JOHN: <i>Get   out!</i> {an8}<br/>'') =
     (cps ''(door creaks) JOHN: __TAG_1__Get   out!__TAG_2__ __TAG_3____TAG_0__'',
      [cps ''<br/>'', cps ''<i>'', cps ''</i>'', cps ''{an8}'']) \<and>
   list_all (\<lambda>p. 95 \<notin> set p)
     (snd (shield (cps ''(door creaks) JOHN: <i>Get   out!</i> {an8}<br/>''))) \<and>
   keeps_placeholders default_config
     (fst (shield (cps ''(door creaks) JOHN: <i>Get   out!</i> {an8}<br/>''))) \<and>
   clean_line (cps ''(door creaks) JOHN: <i>Get   out!</i> {an8}<br/>'') default_config =
     Some (cps ''<i>Get out!</i> {an8}<br/>'') \<and>
   list_all is_span (snd (shield (cps ''(door creaks) JOHN: <i>Get   out!</i> {an8}<br/>''))) \<and>
   no_span_left (fst (shield (cps ''(door creaks) JOHN: <i>Get   out!</i> {an8}<br/>''))) \<and>
   (\<exists>items items'.
      cps ''(door creaks) JOHN: __TAG_1__Get   out!__TAG_2__ __TAG_3____TAG_0__'' = flat items \<and>
      toks items' = toks items \<and>
      cps ''(door creaks) JOHN: <i>Get   out!</i> {an8}<br/>'' =
        expand [cps ''<br/>'', cps ''<i>'', cps ''</i>'', cps ''{an8}''] items \<and>
      cps ''<i>Get out!</i> {an8}<br/>'' =
        expand [cps ''<br/>'', cps ''<i>'', cps ''</i>'', cps ''{an8}''] items') \<and>
   95 \<notin> set (cps ''<i>Get out!</i> {an8}<br/>'')"
proof -
  let ?l = "cps ''(door creaks) JOHN: <i>Get   out!</i> {an8}<br/>''"
  let ?s = "cps ''(door creaks) JOHN: __TAG_1__Get   out!__TAG_2__ __TAG_3____TAG_0__''"
  let ?P = "[cps ''<br/>'', cps ''<i>'', cps ''</i>'', cps ''{an8}'']"
  have h1: "95 \<notin> set ?l"
    by (simp add: cps_def)
  have sh: "shield ?l = (?s, ?P)"
    by (simp add: text_defs regex_defs tag_token_def shield_def)
  have h2: "list_all (\<lambda>p. 95 \<notin> set p) (snd (shield ?l))"
    unfolding sh by (simp add: cps_def)
  have rm: "remove_inline_brackets ?s default_config =
              cps '' JOHN: __TAG_1__Get   out!__TAG_2__ __TAG_3____TAG_0__''"
    by (simp add: text_defs regex_defs remove_inline_brackets_def config_defs)
  have h3: "keeps_placeholders default_config (fst (shield ?l))"
    unfolding sh keeps_placeholders_def fst_conv rm by (simp add: cps_def)
  have h4: "clean_line ?l default_config = Some (cps ''<i>Get out!</i> {an8}<br/>'')"
    by (simp add: text_defs regex_defs clean_defs config_defs)
  have f: "fst (shield ?l) = ?s" and s: "snd (shield ?l) = ?P"
    unfolding sh by simp_all
  note inst = shield_round_trip [OF h1 h2 h3 h4, unfolded f s]
  show ?thesis
    using h1 sh h2 h3 h4 inst unfolding f s by blast
qed

end
